theory Spec2Isabelle
  imports Main "HOL-Library.Word" "HOL-Library.Multiset"
begin

section \<open>EncodingConverter: data model\<close>

text \<open>
  The development embeds \<^verbatim>\<open>src/EncodingConverter.h\<close>. The class has no data members;
  everything it does is an effect on the file system and on the log. Each member function
  is therefore written as a program over a small set of primitive actions (log a message,
  open a file for reading, open it for writing, write, start an asynchronous task, wait
  for a future), in the order in which the C++ text performs them. Two interpreters give
  the programs their meaning: \<open>exec\<close> runs a program on one thread, and \<open>pool_step\<close>
  interleaves the threads started by \<^verbatim>\<open>std::async\<close>.
\<close>

datatype LogLevel = INFO | WARN | ERROR

text \<open>
  The exceptions the code can raise, each with its \<^verbatim>\<open>what()\<close> text. All of them derive
  from \<^verbatim>\<open>std::exception\<close>, which is what every handler in the class catches.
\<close>

datatype error = Runtime_error string | Length_error string | Filesystem_error string

fun what :: "error \<Rightarrow> string" where
  "what (Runtime_error m) = m"
| "what (Length_error m) = m"
| "what (Filesystem_error m) = m"

text \<open>The values captured by the lambda that \<^verbatim>\<open>convert\<close> hands to \<^verbatim>\<open>std::async\<close>.\<close>

record task =
  t_path :: string
  t_to :: string
  t_filter :: string

datatype 'a prog =
    Return 'a
  | Throw error
  | Log LogLevel string "'a prog"
  | Open_in string "string option \<Rightarrow> 'a prog"
  | Open_out string "bool \<Rightarrow> 'a prog"
  | Write string string "'a prog"
  | Async task "nat \<Rightarrow> 'a prog"
  | Get nat "error option \<Rightarrow> 'a prog"

text \<open>Sequencing of two programs, and \<^verbatim>\<open>try { m } catch (const std::exception& e) { h e }\<close>.\<close>

primrec bind :: "'a prog \<Rightarrow> ('a \<Rightarrow> 'b prog) \<Rightarrow> 'b prog" where
  "bind (Return x) f = f x"
| "bind (Throw e) f = Throw e"
| "bind (Log l m k) f = Log l m (bind k f)"
| "bind (Open_in p k) f = Open_in p (\<lambda>c. bind (k c) f)"
| "bind (Open_out p k) f = Open_out p (\<lambda>b. bind (k b) f)"
| "bind (Write p d k) f = Write p d (bind k f)"
| "bind (Async t k) f = Async t (\<lambda>h. bind (k h) f)"
| "bind (Get h k) f = Get h (\<lambda>r. bind (k r) f)"

primrec try_catch :: "'a prog \<Rightarrow> (error \<Rightarrow> 'a prog) \<Rightarrow> 'a prog" where
  "try_catch (Return x) f = Return x"
| "try_catch (Throw e) f = f e"
| "try_catch (Log l m k) f = Log l m (try_catch k f)"
| "try_catch (Open_in p k) f = Open_in p (\<lambda>c. try_catch (k c) f)"
| "try_catch (Open_out p k) f = Open_out p (\<lambda>b. try_catch (k b) f)"
| "try_catch (Write p d k) f = Write p d (try_catch k f)"
| "try_catch (Async t k) f = Async t (\<lambda>h. try_catch (k h) f)"
| "try_catch (Get h k) f = Get h (\<lambda>r. try_catch (k r) f)"

subsection \<open>The world a program runs in\<close>

text \<open>
  What a run can observe and change: the content of the files, and the trace of what was
  done, in order. A path names a file through the file system; two paths (a hard link, a
  symbolic link) may name the same file, so the content is keyed by the file, not by the
  path. A file that is absent cannot be opened for reading. The trace holds every message
  passed to \<^verbatim>\<open>logMessage\<close> and every attempt to open or write a file, by the path used.
\<close>

type_synonym inode = nat

datatype event =
    Logged LogLevel string
  | Opened_in string
  | Opened_out string
  | Wrote string string

record world =
  files :: "inode \<rightharpoonup> string"
  trace :: "event list"

text \<open>
  A walk with \<^verbatim>\<open>std::filesystem::recursive_directory_iterator\<close>, as the range-based
  \<^verbatim>\<open>for\<close> loop sees it: the walk is at its end, or the constructor or an increment of
  the iterator has thrown a \<^verbatim>\<open>filesystem_error\<close> (a directory that cannot be opened),
  or it hands over an entry. \<^verbatim>\<open>entry.is_regular_file()\<close> of that entry returns or throws
  a \<^verbatim>\<open>filesystem_error\<close> in its turn. The errors are given by their \<^verbatim>\<open>what()\<close> text.
\<close>

datatype walk = End | Iterator_error string | Entry string "string + bool" walk

text \<open>
  What the class takes from its libraries and from the file system without changing it:
  \<^verbatim>\<open>std::filesystem\<close> (the file a path names, what \<^verbatim>\<open>is_directory\<close> and
  \<^verbatim>\<open>is_regular_file\<close> return for a path or the \<^verbatim>\<open>filesystem_error\<close> they throw, the
  recursive walk of a directory, whether a file can be opened for writing), uchardet,
  ICU's \<^verbatim>\<open>ucnv_convert\<close> and \<^verbatim>\<open>u_errorName\<close>, and the part of \<^verbatim>\<open>std::regex\<close> that the
  matcher below does not cover.
\<close>

datatype uchardet_result = New_failed | Handle_data_failed | Charset "string option"

record env =
  inode_of :: "string \<Rightarrow> inode"
  is_directory :: "string \<Rightarrow> string + bool"
  is_regular_file :: "string \<Rightarrow> string + bool"
  recursive_directory_iterator :: "string \<Rightarrow> walk"
  writable :: "string \<Rightarrow> bool"
  uchardet :: "string \<Rightarrow> uchardet_result"
  ucnv_convert :: "string \<Rightarrow> string \<Rightarrow> nat \<Rightarrow> string \<Rightarrow> int \<Rightarrow> string + string"
  regex_other :: "string \<Rightarrow> string + (string \<Rightarrow> bool)"
  regex_error_what :: "string \<Rightarrow> string"
  length_error_what :: string

definition emit :: "event \<Rightarrow> world \<Rightarrow> world" where
  "emit e w = w\<lparr>trace := trace w @ [e]\<rparr>"

text \<open>
  \<^verbatim>\<open>std::ofstream(path, binary | trunc)\<close> empties the file when it can be opened;
  \<^verbatim>\<open>write\<close> then stores the data.
\<close>

definition open_out :: "env \<Rightarrow> string \<Rightarrow> world \<Rightarrow> world" where
  "open_out env p w =
     (if writable env p
      then emit (Opened_out p) (w\<lparr>files := (files w)(inode_of env p \<mapsto> [])\<rparr>)
      else emit (Opened_out p) w)"

definition write_out :: "env \<Rightarrow> string \<Rightarrow> string \<Rightarrow> world \<Rightarrow> world" where
  "write_out env p d w = emit (Wrote p d) (w\<lparr>files := (files w)(inode_of env p \<mapsto> d)\<rparr>)"

subsection \<open>Running a program on one thread\<close>

text \<open>
  A run ends by returning, by an exception that nothing caught, or, for a program that
  starts threads, at the first thread action: those programs are run by the scheduler of
  the last section.
\<close>

datatype 'a outcome = Normal 'a | Raised error | Needs_threads

primrec exec :: "env \<Rightarrow> 'a prog \<Rightarrow> world \<Rightarrow> 'a outcome \<times> world" where
  "exec env (Return x) = (\<lambda>w. (Normal x, w))"
| "exec env (Throw e) = (\<lambda>w. (Raised e, w))"
| "exec env (Log l m k) = (\<lambda>w. exec env k (emit (Logged l m) w))"
| "exec env (Open_in p k) =
     (\<lambda>w. exec env (k (files w (inode_of env p))) (emit (Opened_in p) w))"
| "exec env (Open_out p k) = (\<lambda>w. exec env (k (writable env p)) (open_out env p w))"
| "exec env (Write p d k) = (\<lambda>w. exec env k (write_out env p d w))"
| "exec env (Async t k) = (\<lambda>w. (Needs_threads, w))"
| "exec env (Get h k) = (\<lambda>w. (Needs_threads, w))"

section \<open>The name normalizer\<close>

text \<open>\<^verbatim>\<open>::tolower\<close> in the C locale: the letters A to Z move down by 32.\<close>

definition tolower :: "char \<Rightarrow> char" where
  "tolower c =
     (if (65::nat) \<le> of_char c \<and> of_char c \<le> (90::nat)
      then char_of (of_char c + (32::nat)) else c)"

definition mapEncodingName :: "string \<Rightarrow> string prog" where
  "mapEncodingName encoding =
     (if encoding = [] then Return encoding
      else let lowerEncoding = map tolower encoding in
        if lowerEncoding = ''windows-1252'' \<or> lowerEncoding = ''windows1252''
          then Return ''windows-1252''
        else if lowerEncoding = ''iso-8859-1'' \<or> lowerEncoding = ''iso8859-1''
          then Return ''ISO-8859-1''
        else if lowerEncoding = ''utf-8'' \<or> lowerEncoding = ''utf8'' then Return ''UTF-8''
        else if lowerEncoding = ''gbk'' then Return ''GBK''
        else if lowerEncoding = ''gb18030'' then Return ''GB18030''
        else if lowerEncoding = ''ascii'' then Return ''ASCII''
        else if lowerEncoding = ''big5'' then Return ''Big5''
        else if lowerEncoding = ''utf-16le'' \<or> lowerEncoding = ''utf16le''
          then Return ''UTF-16LE''
        else if lowerEncoding = ''utf-16be'' \<or> lowerEncoding = ''utf16be''
          then Return ''UTF-16BE''
        else Log WARN (''Unknown encoding name encountered: '' @ encoding) (Return encoding))"

text \<open>
  The alias table as the specification lists it, from lower-case alias to canonical name,
  to compare the code with.
\<close>

definition alias_table :: "(string \<times> string) list" where
  "alias_table =
     [(''utf8'', ''UTF-8''), (''utf-8'', ''UTF-8''), (''gbk'', ''GBK''),
      (''gb18030'', ''GB18030''), (''big5'', ''Big5''), (''ascii'', ''ASCII''),
      (''windows-1252'', ''windows-1252''), (''windows1252'', ''windows-1252''),
      (''iso-8859-1'', ''ISO-8859-1''), (''iso8859-1'', ''ISO-8859-1''),
      (''utf-16le'', ''UTF-16LE''), (''utf16le'', ''UTF-16LE''),
      (''utf-16be'', ''UTF-16BE''), (''utf16be'', ''UTF-16BE'')]"

definition normalize_spec :: "string \<Rightarrow> string" where
  "normalize_spec raw =
     (if raw = [] then []
      else case map_of alias_table (map tolower raw) of Some canonical \<Rightarrow> canonical
           | None \<Rightarrow> raw)"

section \<open>Regular expressions\<close>

text \<open>
  Both filters are compiled by \<^verbatim>\<open>std::regex\<close> with the ECMAScript grammar and the
  \<^verbatim>\<open>icase\<close> flag and applied with \<^verbatim>\<open>std::regex_match\<close>, which succeeds when the whole
  string matches. The matcher below covers the part of the grammar that the class itself
  writes and that a list of file extensions or encoding names needs: ordinary characters,
  \<open>.\<close>, an escaped syntax character, groups, \<open>|\<close>, the quantifiers \<open>*\<close>, \<open>+\<close>, \<open>?\<close>
  and the assertions \<open>^\<close> and \<open>$\<close>. A pattern that uses anything else (a character class,
  a counted repetition, a class escape, a back reference, a group that starts with \<open>?\<close>,
  a quantifier put on a quantifier) is left to the parameter \<open>regex_other\<close>.
\<close>

datatype rx =
    Chr char | Any | Bol | Eol | Eps
  | Seq rx rx | Alt rx rx | Star rx | Plus rx | Opt rx

fun seq_of :: "rx list \<Rightarrow> rx" where
  "seq_of [] = Eps"
| "seq_of (r # rs) = Seq r (seq_of rs)"

fun alt_of :: "rx list \<Rightarrow> rx" where
  "alt_of [] = Eps"
| "alt_of [r] = r"
| "alt_of (r # rs) = Alt r (alt_of rs)"

text \<open>
  The parser reads the pattern from left to right. A frame holds the group being read:
  its finished alternatives, the terms of the alternative being read (latest first), and
  what the latest term is, which decides whether a quantifier may follow.
\<close>

datatype last_term = No_term | Atom_term | Assertion_term | Quantified_term

type_synonym frame = "rx list \<times> rx list \<times> last_term"

fun close_frame :: "frame \<Rightarrow> rx" where
  "close_frame (alts, cur, l) = alt_of (alts @ [seq_of (rev cur)])"

datatype parsed = Parsed rx | Syntax_error | Unmodelled

definition backslash :: char where
  "backslash = CHR 0x5C"

definition syntax_char :: "char \<Rightarrow> bool" where
  "syntax_char c = (c \<in> set ''^$.*+?()[]{}|/'' \<or> c = backslash)"

definition quantify :: "char \<Rightarrow> rx \<Rightarrow> rx" where
  "quantify q r = (if q = CHR ''*'' then Star r else if q = CHR ''+'' then Plus r else Opt r)"

fun rx_scan :: "string \<Rightarrow> frame \<Rightarrow> frame list \<Rightarrow> parsed" where
  "rx_scan [] fr st = (if st = [] then Parsed (close_frame fr) else Syntax_error)"
| "rx_scan (c # cs) (alts, cur, l) st =
     (if c = CHR ''('' then
        (case cs of
           [] \<Rightarrow> Syntax_error
         | d # ds \<Rightarrow> if d = CHR ''?'' then Unmodelled
                     else rx_scan cs ([], [], No_term) ((alts, cur, l) # st))
      else if c = CHR '')'' then
        (case st of
           [] \<Rightarrow> Syntax_error
         | (alts', cur', l') # st' \<Rightarrow>
             rx_scan cs (alts', close_frame (alts, cur, l) # cur', Atom_term) st')
      else if c = CHR ''|'' then rx_scan cs (alts @ [seq_of (rev cur)], [], No_term) st
      else if c = CHR ''*'' \<or> c = CHR ''+'' \<or> c = CHR ''?'' then
        (case l of
           Atom_term \<Rightarrow>
             (case cur of
                [] \<Rightarrow> Syntax_error
              | a # rest \<Rightarrow> rx_scan cs (alts, quantify c a # rest, Quantified_term) st)
         | Quantified_term \<Rightarrow> Unmodelled
         | _ \<Rightarrow> Syntax_error)
      else if c = backslash then
        (case cs of
           [] \<Rightarrow> Syntax_error
         | e # es \<Rightarrow> if syntax_char e then rx_scan es (alts, Chr e # cur, Atom_term) st
                     else Unmodelled)
      else if c = CHR ''.'' then rx_scan cs (alts, Any # cur, Atom_term) st
      else if c = CHR ''^'' then rx_scan cs (alts, Bol # cur, Assertion_term) st
      else if c = CHR ''$'' then rx_scan cs (alts, Eol # cur, Assertion_term) st
      else if c \<in> set ''[]{}'' \<or> c = CHR 0x00 then Unmodelled
      else rx_scan cs (alts, Chr c # cur, Atom_term) st)"

definition rx_parse :: "string \<Rightarrow> parsed" where
  "rx_parse pattern = rx_scan pattern ([], [], No_term) []"

text \<open>
  Matching works on positions: whether a character of the subject has been consumed
  already, and what is left of it. \<open>rx_run r\<close> maps a position to the positions the
  subject can be in after \<open>r\<close> has matched there. Letters compare without case; \<open>.\<close>
  matches any character but a line terminator; \<open>^\<close> holds where nothing has been
  consumed and \<open>$\<close> where nothing is left. An iteration of a repetition that consumes
  nothing changes no position, so a repetition only follows the iterations that do.
\<close>

type_synonym pos = "bool \<times> string"

definition line_terminator :: "char \<Rightarrow> bool" where
  "line_terminator c = (c = CHR 0x0A \<or> c = CHR 0x0D)"

fun star_run :: "(pos \<Rightarrow> pos list) \<Rightarrow> nat \<Rightarrow> pos \<Rightarrow> pos list" where
  "star_run f 0 p = [p]"
| "star_run f (Suc n) p =
     p # concat (map (star_run f n) (filter (\<lambda>q. length (snd q) < length (snd p)) (f p)))"

primrec rx_run :: "rx \<Rightarrow> pos \<Rightarrow> pos list" where
  "rx_run (Chr c) = (\<lambda>p. case snd p of [] \<Rightarrow> []
                        | x # xs \<Rightarrow> if tolower x = tolower c then [(True, xs)] else [])"
| "rx_run Any = (\<lambda>p. case snd p of [] \<Rightarrow> []
                   | x # xs \<Rightarrow> if line_terminator x then [] else [(True, xs)])"
| "rx_run Bol = (\<lambda>p. if fst p then [] else [p])"
| "rx_run Eol = (\<lambda>p. if snd p = [] then [p] else [])"
| "rx_run Eps = (\<lambda>p. [p])"
| "rx_run (Seq r s) = (\<lambda>p. concat (map (rx_run s) (rx_run r p)))"
| "rx_run (Alt r s) = (\<lambda>p. rx_run r p @ rx_run s p)"
| "rx_run (Star r) = (\<lambda>p. star_run (rx_run r) (length (snd p)) p)"
| "rx_run (Plus r) =
     (\<lambda>p. concat (map (\<lambda>q. star_run (rx_run r) (length (snd q)) q) (rx_run r p)))"
| "rx_run (Opt r) = (\<lambda>p. p # rx_run r p)"

definition regex_match :: "rx \<Rightarrow> string \<Rightarrow> bool" where
  "regex_match re s = list_ex (\<lambda>q. snd q = []) (rx_run re (False, s))"

text \<open>
  Constructing a \<^verbatim>\<open>std::regex\<close>: the matcher, or the \<^verbatim>\<open>what()\<close> text of the
  \<^verbatim>\<open>std::regex_error\<close> thrown.
\<close>

definition std_regex :: "env \<Rightarrow> string \<Rightarrow> string + (string \<Rightarrow> bool)" where
  "std_regex env pattern =
     (case rx_parse pattern of
        Parsed re \<Rightarrow> Inr (regex_match re)
      | Syntax_error \<Rightarrow> Inl (regex_error_what env pattern)
      | Unmodelled \<Rightarrow> regex_other env pattern)"

section \<open>The member functions\<close>

definition quote :: char where
  "quote = CHR 0x27"

definition shouldProcessFile :: "env \<Rightarrow> string \<Rightarrow> string \<Rightarrow> bool prog" where
  "shouldProcessFile env fileName filter' =
     (if filter' = [] then Return True
      else
        let regexPattern = ''^.*'' @ [backslash] @ ''.('' @ filter' @ '')$'' in
        case std_regex env regexPattern of
          Inl msg \<Rightarrow>
            Log ERROR (''Invalid regex filter: '' @ filter' @ '' | Error: '' @ msg)
              (Throw (Runtime_error (''Invalid regex filter: '' @ filter')))
        | Inr re \<Rightarrow>
            if \<not> re fileName then
              Log WARN (''File MisMatch: '' @ fileName @ '' does not match filter: '' @ filter')
                (Return False)
            else Return True)"

definition detectEncoding :: "env \<Rightarrow> string \<Rightarrow> string \<Rightarrow> string prog" where
  "detectEncoding env data encodingFilter =
     (case uchardet env data of
        New_failed \<Rightarrow>
          Log ERROR ''Failed to initialize uchardet.''
            (Throw (Runtime_error ''Failed to initialize uchardet.''))
      | Handle_data_failed \<Rightarrow>
          Log ERROR ''Failed to handle data with uchardet.''
            (Throw (Runtime_error ''Failed to handle data with uchardet.''))
      | Charset detectedCharset \<Rightarrow>
          let result = (case detectedCharset of Some name \<Rightarrow> name | None \<Rightarrow> ''UNKNOWN'') in
          if encodingFilter \<noteq> [] \<and> result \<noteq> ''UNKNOWN'' then
            (case std_regex env (''^('' @ encodingFilter @ '')$'') of
               Inl msg \<Rightarrow>
                 Log ERROR (''Invalid regex filter: '' @ encodingFilter @ '' | Error: '' @ msg)
                   (Throw (Runtime_error (''Invalid regex filter: '' @ encodingFilter)))
             | Inr re \<Rightarrow>
                 if \<not> re result then
                   Log WARN (''Detected encoding '' @ [quote] @ result @ [quote]
                             @ '' does not match filter: '' @ [quote] @ encodingFilter
                             @ [quote] @ ''.'')
                     (Return ''MISMATCH'')
                 else Return result)
          else Return result)"

text \<open>
  \<^verbatim>\<open>targetCapacity\<close> and the source length are \<^verbatim>\<open>int32_t\<close>: the product wraps for an
  input of \<open>2 ^ 29\<close> bytes or more, and \<^verbatim>\<open>std::vector\<close> refuses a negative capacity with
  a \<^verbatim>\<open>std::length_error\<close>. The function returns what the C++ assigns to \<^verbatim>\<open>output\<close>.
\<close>

definition convertEncoding :: "env \<Rightarrow> string \<Rightarrow> string \<Rightarrow> string \<Rightarrow> string prog" where
  "convertEncoding env input fromEncoding toEncoding =
     (let targetCapacity = (word_of_nat (length input) :: 32 word) * 4 + 1 in
      if sint targetCapacity < 0 then Throw (Length_error (length_error_what env))
      else
        case ucnv_convert env toEncoding fromEncoding (nat (sint targetCapacity)) input
               (sint (word_of_nat (length input) :: 32 word)) of
          Inl errorName \<Rightarrow>
            Log ERROR (''ICU conversion failed: '' @ errorName)
              (Throw (Runtime_error (''ICU conversion failed: '' @ errorName)))
        | Inr converted \<Rightarrow> Return converted)"

definition convertFile :: "env \<Rightarrow> string \<Rightarrow> string \<Rightarrow> string \<Rightarrow> unit prog" where
  "convertFile env filePath toEncoding sourceEncodingFilter =
     Open_in filePath (\<lambda>file. case file of
        None \<Rightarrow>
          Log ERROR (''Failed to open file: '' @ filePath)
            (Throw (Runtime_error (''Failed to open file: '' @ filePath)))
      | Some fileContent \<Rightarrow>
          bind (detectEncoding env fileContent sourceEncodingFilter) (\<lambda>detectedEncoding.
            if detectedEncoding = ''UNKNOWN'' \<or> detectedEncoding = ''MISMATCH'' then
              Log WARN (''Skipping file due to encoding issues: '' @ filePath) (Return ())
            else
              bind (mapEncodingName detectedEncoding) (\<lambda>mappedDetectedEncoding.
                if mappedDetectedEncoding = [] then
                  Log WARN (''Unsupported detected encoding '' @ [quote] @ detectedEncoding
                            @ [quote] @ '' for file: '' @ filePath)
                    (Return ())
                else
                  bind (try_catch
                          (convertEncoding env fileContent mappedDetectedEncoding toEncoding)
                          (\<lambda>e. Log ERROR (''Conversion failed for file: '' @ filePath
                                           @ '' | Error: '' @ what e)
                                 (Throw e)))
                    (\<lambda>convertedContent.
                      Open_out filePath (\<lambda>is_open.
                        if \<not> is_open then
                          Log ERROR (''Failed to open file for writing: '' @ filePath)
                            (Throw (Runtime_error
                                      (''Failed to open file for writing: '' @ filePath)))
                        else
                          Write filePath convertedContent
                            (Log INFO (filePath @ '' | '' @ mappedDetectedEncoding @ '' -> ''
                                       @ toEncoding)
                               (Return ())))))))"

text \<open>\<^verbatim>\<open>path.filename()\<close>: what follows the last directory separator.\<close>

definition filename :: "string \<Rightarrow> string" where
  "filename p = rev (takeWhile (\<lambda>c. c \<noteq> CHR ''/'') (rev p))"

text \<open>
  The body of the lambda that \<^verbatim>\<open>convert\<close> runs asynchronously for one directory entry.
\<close>

definition task_body :: "env \<Rightarrow> task \<Rightarrow> unit prog" where
  "task_body env t =
     try_catch (convertFile env (t_path t) (t_to t) (t_filter t))
       (\<lambda>e. Log ERROR (''Error converting '' @ t_path t @ '': '' @ what e) (Return ()))"

text \<open>
  The vector of futures is a local variable of \<^verbatim>\<open>convert\<close>. An exception that leaves
  \<^verbatim>\<open>convert\<close> destroys it on the way, and the destructor of a future that
  \<^verbatim>\<open>std::async\<close> returned waits for its task to end, whatever the task ends with.
  \<open>unwinding futures m\<close> is \<open>m\<close> where the vector holds \<open>futures\<close>.
\<close>

fun destroy :: "nat list \<Rightarrow> 'a prog \<Rightarrow> 'a prog" where
  "destroy [] k = k"
| "destroy (future # futures) k = Get future (\<lambda>r. destroy futures k)"

definition unwinding :: "nat list \<Rightarrow> 'a prog \<Rightarrow> 'a prog" where
  "unwinding futures m = try_catch m (\<lambda>e. destroy futures (Throw e))"

text \<open>
  The loop of \<^verbatim>\<open>convert\<close> over the walk of the directory; \<open>futures\<close> is the vector
  of futures collected so far. Nothing in the loop catches the exceptions of the
  iterator, of \<^verbatim>\<open>is_regular_file\<close> and of \<^verbatim>\<open>shouldProcessFile\<close>.
\<close>

fun convert_entries ::
  "env \<Rightarrow> walk \<Rightarrow> string \<Rightarrow> string \<Rightarrow> string \<Rightarrow> nat list \<Rightarrow> nat list prog"
where
  "convert_entries env End mappedToEncoding sourceEncodingFilter fileFilter futures =
     Return futures"
| "convert_entries env (Iterator_error msg) mappedToEncoding sourceEncodingFilter fileFilter
       futures =
     unwinding futures (Throw (Filesystem_error msg))"
| "convert_entries env (Entry entry status entries) mappedToEncoding sourceEncodingFilter
       fileFilter futures =
     (case status of
        Inl msg \<Rightarrow> unwinding futures (Throw (Filesystem_error msg))
      | Inr regular \<Rightarrow>
          if regular then
            bind (unwinding futures (shouldProcessFile env (filename entry) fileFilter))
              (\<lambda>process.
                if process then
                  Async \<lparr>t_path = entry, t_to = mappedToEncoding,
                         t_filter = sourceEncodingFilter\<rparr>
                    (\<lambda>future. convert_entries env entries mappedToEncoding
                                 sourceEncodingFilter fileFilter (futures @ [future]))
                else convert_entries env entries mappedToEncoding sourceEncodingFilter
                       fileFilter futures)
          else
            Log WARN (''Skipping non-regular file: '' @ entry)
              (convert_entries env entries mappedToEncoding sourceEncodingFilter fileFilter
                 futures))"

fun get_all :: "nat list \<Rightarrow> unit prog" where
  "get_all [] = Return ()"
| "get_all (future # futures) =
     Get future (\<lambda>r. case r of
        None \<Rightarrow> get_all futures
      | Some e \<Rightarrow> Log ERROR (''Asynchronous task failed: '' @ what e) (get_all futures))"

definition convert :: "env \<Rightarrow> string \<Rightarrow> string \<Rightarrow> string \<Rightarrow> string \<Rightarrow> unit prog" where
  "convert env path toEncoding sourceEncodingFilter fileFilter =
     bind (mapEncodingName toEncoding) (\<lambda>mappedToEncoding.
       if mappedToEncoding = [] then
         Log ERROR (''Unsupported target encoding: '' @ toEncoding)
           (Throw (Runtime_error (''Unsupported target encoding: '' @ toEncoding)))
       else
         Log INFO (''Target Encoding Mapped: '' @ mappedToEncoding)
           (bind
              (case is_directory env path of
                 Inl msg \<Rightarrow> Throw (Filesystem_error msg)
               | Inr directory \<Rightarrow>
                   if directory then
                     Log INFO (''Processing directory: '' @ path)
                       (convert_entries env (recursive_directory_iterator env path)
                          mappedToEncoding sourceEncodingFilter fileFilter [])
                   else
                     (case is_regular_file env path of
                        Inl msg \<Rightarrow> Throw (Filesystem_error msg)
                      | Inr regular \<Rightarrow>
                          if regular then
                            bind (shouldProcessFile env (filename path) fileFilter)
                              (\<lambda>process.
                                if process then
                                  Log INFO (''Processing single file: '' @ path)
                                    (bind
                                       (try_catch
                                          (convertFile env path mappedToEncoding
                                             sourceEncodingFilter)
                                          (\<lambda>e. Log ERROR (''Error converting '' @ path
                                                           @ '': '' @ what e)
                                                 (Return ())))
                                       (\<lambda>_. Return []))
                                else
                                  Log WARN (''File does not match filter and will be skipped: ''
                                            @ path)
                                    (Return []))
                          else
                            Log ERROR (''Invalid path: '' @ path)
                              (Throw (Runtime_error (''Invalid path: '' @ path)))))
              get_all))"

fun convert_single_entries ::
  "env \<Rightarrow> walk \<Rightarrow> string \<Rightarrow> string \<Rightarrow> string \<Rightarrow> unit prog"
where
  "convert_single_entries env End mappedToEncoding sourceEncodingFilter fileFilter = Return ()"
| "convert_single_entries env (Iterator_error msg) mappedToEncoding sourceEncodingFilter
       fileFilter =
     Throw (Filesystem_error msg)"
| "convert_single_entries env (Entry entry status entries) mappedToEncoding
       sourceEncodingFilter fileFilter =
     (case status of
        Inl msg \<Rightarrow> Throw (Filesystem_error msg)
      | Inr regular \<Rightarrow>
          if regular then
            bind (shouldProcessFile env (filename entry) fileFilter) (\<lambda>process.
              if process then
                bind
                  (try_catch (convertFile env entry mappedToEncoding sourceEncodingFilter)
                     (\<lambda>e. Log ERROR (''Error converting '' @ entry @ '': '' @ what e)
                            (Return ())))
                  (\<lambda>_. convert_single_entries env entries mappedToEncoding
                          sourceEncodingFilter fileFilter)
              else convert_single_entries env entries mappedToEncoding sourceEncodingFilter
                     fileFilter)
          else
            Log WARN (''Skipping non-regular file: '' @ entry)
              (convert_single_entries env entries mappedToEncoding sourceEncodingFilter
                 fileFilter))"

definition convert_single :: "env \<Rightarrow> string \<Rightarrow> string \<Rightarrow> string \<Rightarrow> string \<Rightarrow> unit prog" where
  "convert_single env path toEncoding sourceEncodingFilter fileFilter =
     bind (mapEncodingName toEncoding) (\<lambda>mappedToEncoding.
       if mappedToEncoding = [] then
         Log ERROR (''Unsupported target encoding: '' @ toEncoding)
           (Throw (Runtime_error (''Unsupported target encoding: '' @ toEncoding)))
       else
         Log INFO (''Target Encoding Mapped: '' @ mappedToEncoding)
           (case is_directory env path of
              Inl msg \<Rightarrow> Throw (Filesystem_error msg)
            | Inr directory \<Rightarrow>
                if directory then
                  Log INFO (''Processing directory: '' @ path)
                    (convert_single_entries env (recursive_directory_iterator env path)
                       mappedToEncoding sourceEncodingFilter fileFilter)
                else
                  (case is_regular_file env path of
                     Inl msg \<Rightarrow> Throw (Filesystem_error msg)
                   | Inr regular \<Rightarrow>
                       if regular then
                         bind (shouldProcessFile env (filename path) fileFilter)
                           (\<lambda>process.
                             if process then
                               Log INFO (''Processing single file: '' @ path)
                                 (try_catch
                                    (convertFile env path mappedToEncoding
                                       sourceEncodingFilter)
                                    (\<lambda>e. Log ERROR (''Error converting '' @ path @ '': ''
                                                     @ what e)
                                           (Return ())))
                             else
                               Log WARN (''File does not match filter and will be skipped: ''
                                         @ path)
                                 (Return ()))
                       else
                         Log ERROR (''Invalid path: '' @ path)
                           (Throw (Runtime_error (''Invalid path: '' @ path))))))"

section \<open>Threads\<close>

text \<open>
  \<^verbatim>\<open>std::async(std::launch::async, ...)\<close> starts a thread, which is taken to succeed.
  A pool holds the program each
  thread has still to run, the calling thread first, and the world they share. One step
  of the pool is one action of one thread; a schedule names the thread that moves at each
  step, so that quantifying over schedules covers every interleaving. \<^verbatim>\<open>future.get()\<close>
  can move only once the thread it waits for has ended, and passes on the exception that
  ended it, if any. A run is complete when every thread has ended: the calling thread
  waits for each future, in \<^verbatim>\<open>get\<close> or in the destructor of the vector of futures.
\<close>

record pool =
  threads :: "unit prog list"
  shared :: world

fun ended :: "'a prog \<Rightarrow> bool" where
  "ended (Return x) = True"
| "ended (Throw e) = True"
| "ended _ = False"

definition pool_step :: "env \<Rightarrow> nat \<Rightarrow> pool \<Rightarrow> pool" where
  "pool_step env i pl =
     (if i < length (threads pl) then
        (case threads pl ! i of
           Return x \<Rightarrow> pl
         | Throw e \<Rightarrow> pl
         | Log l m k \<Rightarrow>
             \<lparr>threads = (threads pl)[i := k], shared = emit (Logged l m) (shared pl)\<rparr>
         | Open_in p k \<Rightarrow>
             \<lparr>threads = (threads pl)[i := k (files (shared pl) (inode_of env p))],
              shared = emit (Opened_in p) (shared pl)\<rparr>
         | Open_out p k \<Rightarrow>
             \<lparr>threads = (threads pl)[i := k (writable env p)],
              shared = open_out env p (shared pl)\<rparr>
         | Write p d k \<Rightarrow>
             \<lparr>threads = (threads pl)[i := k], shared = write_out env p d (shared pl)\<rparr>
         | Async t k \<Rightarrow>
             \<lparr>threads = (threads pl)[i := k (length (threads pl))] @ [task_body env t],
              shared = shared pl\<rparr>
         | Get h k \<Rightarrow>
             (if h < length (threads pl) then
                (case threads pl ! h of
                   Return x \<Rightarrow> \<lparr>threads = (threads pl)[i := k None], shared = shared pl\<rparr>
                 | Throw e \<Rightarrow> \<lparr>threads = (threads pl)[i := k (Some e)], shared = shared pl\<rparr>
                 | _ \<Rightarrow> pl)
              else pl))
      else pl)"

definition run_schedule :: "env \<Rightarrow> nat list \<Rightarrow> pool \<Rightarrow> pool" where
  "run_schedule env schedule pl = fold (pool_step env) schedule pl"

definition start :: "unit prog \<Rightarrow> world \<Rightarrow> pool" where
  "start main w = \<lparr>threads = [main], shared = w\<rparr>"

definition complete :: "pool \<Rightarrow> bool" where
  "complete pl = list_all ended (threads pl)"

section \<open>A small file system to run the programs on\<close>

text \<open>
  A directory \<open>d\<close> with two regular files and a subdirectory. The detector of this
  environment calls every non-empty content ASCII and cannot decide on an empty one; its
  converter knows three names and copies its input.
\<close>

definition ex_env :: env where
  "ex_env =
     \<lparr>inode_of = (\<lambda>p. if p = ''d/a.txt'' then 1 else if p = ''d/b.md'' then 2 else 0),
      is_directory = (\<lambda>p. Inr (p = ''d'')),
      is_regular_file = (\<lambda>p. Inr (p = ''d/a.txt'' \<or> p = ''d/b.md'')),
      recursive_directory_iterator =
        (\<lambda>p. if p = ''d''
             then Entry ''d/a.txt'' (Inr True)
                    (Entry ''d/sub'' (Inr False) (Entry ''d/b.md'' (Inr True) End))
             else End),
      writable = (\<lambda>p. True),
      uchardet = (\<lambda>data. if data = [] then Charset None else Charset (Some ''ASCII'')),
      ucnv_convert =
        (\<lambda>to from capacity input len.
           if to = ''UTF-8'' \<or> to = ''GBK'' \<or> to = ''ASCII'' then Inr input
           else Inl ''U_FILE_ACCESS_ERROR''),
      regex_other = (\<lambda>pattern. Inl ''regex_error''),
      regex_error_what = (\<lambda>pattern. ''regex_error''),
      length_error_what = ''cannot create std::vector larger than max_size()''\<rparr>"

definition ex_world :: world where
  "ex_world = \<lparr>files = [1 \<mapsto> ''hello'', 2 \<mapsto> ''world''], trace = []\<rparr>"

text \<open>
  The same directory where the subdirectory cannot be read: the walk hands out the first
  file and the subdirectory, and the increment of the iterator that would enter the
  subdirectory throws.
\<close>

definition denied_env :: env where
  "denied_env =
     ex_env\<lparr>recursive_directory_iterator :=
       (\<lambda>p. if p = ''d''
            then Entry ''d/a.txt'' (Inr True)
                   (Entry ''d/sub'' (Inr False)
                      (Iterator_error ''cannot increment recursive directory iterator''))
            else End)\<rparr>"

section \<open>Notions used in the statements\<close>

text \<open>What a run added to the trace, and the events that touch a file.\<close>

definition new_events :: "world \<Rightarrow> world \<Rightarrow> event list" where
  "new_events w w' = drop (length (trace w)) (trace w')"

fun file_event :: "event \<Rightarrow> bool" where
  "file_event (Logged l m) = False"
| "file_event (Opened_in p) = True"
| "file_event (Opened_out p) = True"
| "file_event (Wrote p d) = True"

text \<open>
  The entries that the loop over a walk handles, in order, each with whether it is a
  regular file, and the error that ends the walk, when one does.
\<close>

primrec entries :: "walk \<Rightarrow> (string \<times> bool) list" where
  "entries End = []"
| "entries (Iterator_error msg) = []"
| "entries (Entry entry status rest) =
     (case status of Inl msg \<Rightarrow> [] | Inr regular \<Rightarrow> (entry, regular) # entries rest)"

primrec walk_error :: "walk \<Rightarrow> string option" where
  "walk_error End = None"
| "walk_error (Iterator_error msg) = Some msg"
| "walk_error (Entry entry status rest) =
     (case status of Inl msg \<Rightarrow> Some msg | Inr regular \<Rightarrow> walk_error rest)"

text \<open>
  The \<^verbatim>\<open>filesystem_error\<close> that a run on a path meets outside every file job, when it
  meets one: in \<^verbatim>\<open>is_directory\<close>, in the walk of the directory, or in
  \<^verbatim>\<open>is_regular_file\<close>.
\<close>

definition filesystem_failure :: "env \<Rightarrow> string \<Rightarrow> string option" where
  "filesystem_failure env path =
     (case is_directory env path of
        Inl msg \<Rightarrow> Some msg
      | Inr directory \<Rightarrow>
          if directory then walk_error (recursive_directory_iterator env path)
          else (case is_regular_file env path of Inl msg \<Rightarrow> Some msg | Inr regular \<Rightarrow> None))"

text \<open>
  Steps 3 to 6 of the file job of the specification, as a function of the content read:
  the bytes the job is to write, when the detector names an encoding, the name passes
  the source-encoding filter, the normalized name is not empty and the transcoder
  succeeds; nothing otherwise.
\<close>

definition transcoded :: "env \<Rightarrow> string \<Rightarrow> string \<Rightarrow> string \<Rightarrow> string option" where
  "transcoded env content to sf =
     (case uchardet env content of
        Charset (Some name) \<Rightarrow>
          if name = ''UNKNOWN'' then None
          else if sf \<noteq> []
                  \<and> (case std_regex env (''^('' @ sf @ '')$'') of
                       Inl msg \<Rightarrow> True
                     | Inr re \<Rightarrow> \<not> re name)
            then None
          else if name = ''MISMATCH'' \<or> name = [] then None
          else if sint ((word_of_nat (length content) :: 32 word) * 4 + 1) < 0 then None
          else
            (case ucnv_convert env to (normalize_spec name)
                    (nat (sint ((word_of_nat (length content) :: 32 word) * 4 + 1)))
                    content (sint (word_of_nat (length content) :: 32 word)) of
               Inr out \<Rightarrow> Some out
             | Inl errorName \<Rightarrow> None)
      | _ \<Rightarrow> None)"

section \<open>Programs that work on one file\<close>

text \<open>
  A program is confined to a file when it starts no thread and every file it opens or
  writes is that file. Such a program sees of the world only the content of its file:
  \<open>local\<close> runs it on that content alone and gives how it ends, the content it leaves
  and the events it adds to the trace.
\<close>

primrec confined :: "env \<Rightarrow> inode \<Rightarrow> 'a prog \<Rightarrow> bool" where
  "confined env n (Return x) = True"
| "confined env n (Throw e) = True"
| "confined env n (Log l m k) = confined env n k"
| "confined env n (Open_in p k) = (inode_of env p = n \<and> (\<forall>c. confined env n (k c)))"
| "confined env n (Open_out p k) = (inode_of env p = n \<and> (\<forall>b. confined env n (k b)))"
| "confined env n (Write p d k) = (inode_of env p = n \<and> confined env n k)"
| "confined env n (Async t k) = False"
| "confined env n (Get h k) = False"

primrec local ::
  "env \<Rightarrow> 'a prog \<Rightarrow> string option \<Rightarrow> 'a outcome \<times> string option \<times> event list"
where
  "local env (Return x) = (\<lambda>c. (Normal x, c, []))"
| "local env (Throw e) = (\<lambda>c. (Raised e, c, []))"
| "local env (Log l m k) =
     (\<lambda>c. case local env k c of (r, c', evs) \<Rightarrow> (r, c', Logged l m # evs))"
| "local env (Open_in p k) =
     (\<lambda>c. case local env (k c) c of (r, c', evs) \<Rightarrow> (r, c', Opened_in p # evs))"
| "local env (Open_out p k) =
     (\<lambda>c. case local env (k (writable env p)) (if writable env p then Some [] else c) of
             (r, c', evs) \<Rightarrow> (r, c', Opened_out p # evs))"
| "local env (Write p d k) =
     (\<lambda>c. case local env k (Some d) of (r, c', evs) \<Rightarrow> (r, c', Wrote p d # evs))"
| "local env (Async t k) = (\<lambda>c. (Needs_threads, c, []))"
| "local env (Get h k) = (\<lambda>c. (Needs_threads, c, []))"

primrec log_only :: "'a prog \<Rightarrow> bool" where
  "log_only (Return x) = True"
| "log_only (Throw e) = True"
| "log_only (Log l m k) = log_only k"
| "log_only (Open_in p k) = False"
| "log_only (Open_out p k) = False"
| "log_only (Write p d k) = False"
| "log_only (Async t k) = False"
| "log_only (Get h k) = False"

text \<open>
  A filter as the specification describes it: alternatives separated by \<open>|\<close>, each made
  of ordinary characters, which stand for themselves in a pattern.
\<close>

definition ordinary :: "char \<Rightarrow> bool" where
  "ordinary c = (c \<notin> set ''()|*+?.^$[]{}'' \<and> c \<noteq> backslash \<and> c \<noteq> CHR 0x00)"

fun alternatives :: "string list \<Rightarrow> string" where
  "alternatives [] = []"
| "alternatives [a] = a"
| "alternatives (a # as) = a @ ''|'' @ alternatives as"

definition same_nocase :: "string \<Rightarrow> string \<Rightarrow> bool" where
  "same_nocase s t = (map tolower s = map tolower t)"

text \<open>
  Two notions for reasoning about the matcher: the pattern of a literal string, and the
  rests of the subject that a pattern can leave at a position.
\<close>

definition lit :: "string \<Rightarrow> rx" where
  "lit a = seq_of (map Chr a)"

definition rests :: "rx \<Rightarrow> pos \<Rightarrow> string set" where
  "rests r p = snd ` set (rx_run r p)"

section \<open>What a program can ever do\<close>

text \<open>
  The actions of a program: the events it adds to the trace, the tasks it starts and the
  exceptions it ends with. \<open>always A P\<close> holds when every action that \<open>P\<close> can reach,
  whatever it reads, satisfies \<open>A\<close>. \<^verbatim>\<open>future.get()\<close> rethrows only an exception that
  ended a thread, so that branch counts only for the exceptions \<open>A\<close> admits.
\<close>

datatype action = Act event | Spawn task | Raise error

primrec always :: "(action \<Rightarrow> bool) \<Rightarrow> 'a prog \<Rightarrow> bool" where
  "always A (Return x) = True"
| "always A (Throw e) = A (Raise e)"
| "always A (Log l m k) = (A (Act (Logged l m)) \<and> always A k)"
| "always A (Open_in p k) = (A (Act (Opened_in p)) \<and> (\<forall>c. always A (k c)))"
| "always A (Open_out p k) = (A (Act (Opened_out p)) \<and> (\<forall>b. always A (k b)))"
| "always A (Write p d k) = (A (Act (Wrote p d)) \<and> always A k)"
| "always A (Async t k) = (A (Spawn t) \<and> (\<forall>h. always A (k h)))"
| "always A (Get h k) = (always A (k None) \<and> (\<forall>e. A (Raise e) \<longrightarrow> always A (k (Some e))))"

primrec thread_free :: "'a prog \<Rightarrow> bool" where
  "thread_free (Return x) = True"
| "thread_free (Throw e) = True"
| "thread_free (Log l m k) = thread_free k"
| "thread_free (Open_in p k) = (\<forall>c. thread_free (k c))"
| "thread_free (Open_out p k) = (\<forall>b. thread_free (k b))"
| "thread_free (Write p d k) = thread_free k"
| "thread_free (Async t k) = False"
| "thread_free (Get h k) = False"

text \<open>How the calling thread of a pool has ended, once it has.\<close>

definition main_result :: "pool \<Rightarrow> unit outcome" where
  "main_result pl =
     (case threads pl of
        Return x # ts \<Rightarrow> Normal x
      | Throw e # ts \<Rightarrow> Raised e
      | _ \<Rightarrow> Needs_threads)"

text \<open>The values a program can return, and whether the filename filter lets a name pass.\<close>

primrec returns :: "'a prog \<Rightarrow> 'a set" where
  "returns (Return x) = {x}"
| "returns (Throw e) = {}"
| "returns (Log l m k) = returns k"
| "returns (Open_in p k) = (\<Union>c. returns (k c))"
| "returns (Open_out p k) = (\<Union>b. returns (k b))"
| "returns (Write p d k) = returns k"
| "returns (Async t k) = (\<Union>h. returns (k h))"
| "returns (Get h k) = (\<Union>r. returns (k r))"

definition accepted :: "env \<Rightarrow> string \<Rightarrow> string \<Rightarrow> bool" where
  "accepted env name ff =
     (ff = [] \<or>
      (case std_regex env (''^.*'' @ [backslash] @ ''.('' @ ff @ '')$'') of
         Inr re \<Rightarrow> re name
       | Inl msg \<Rightarrow> False))"

definition malformed :: "env \<Rightarrow> string \<Rightarrow> bool" where
  "malformed env pattern = (case std_regex env pattern of Inl msg \<Rightarrow> True | Inr re \<Rightarrow> False)"

text \<open>
  \<open>inevitably env e P\<close>: however \<open>P\<close> continues, it adds the event \<open>e\<close> to the trace
  before it ends, itself or through a task it starts.
\<close>

primrec inevitably :: "env \<Rightarrow> event \<Rightarrow> 'a prog \<Rightarrow> bool" where
  "inevitably env e (Return x) = False"
| "inevitably env e (Throw x) = False"
| "inevitably env e (Log l m k) = (e = Logged l m \<or> inevitably env e k)"
| "inevitably env e (Open_in p k) = (e = Opened_in p \<or> (\<forall>c. inevitably env e (k c)))"
| "inevitably env e (Open_out p k) = (e = Opened_out p \<or> (\<forall>b. inevitably env e (k b)))"
| "inevitably env e (Write p d k) = (e = Wrote p d \<or> inevitably env e k)"
| "inevitably env e (Async t k) =
     ((case task_body env t of Open_in p k' \<Rightarrow> e = Opened_in p | _ \<Rightarrow> False)
      \<or> (\<forall>h. inevitably env e (k h)))"
| "inevitably env e (Get h k) = (\<forall>r. inevitably env e (k r))"

text \<open>
  \<open>joinable P n\<close>: in a pool of \<open>n\<close> threads, every future that the calling thread \<open>P\<close>
  waits for is one of the tasks started before, whatever \<open>P\<close> reads.
\<close>

primrec joinable :: "'a prog \<Rightarrow> nat \<Rightarrow> bool" where
  "joinable (Return x) = (\<lambda>n. True)"
| "joinable (Throw e) = (\<lambda>n. True)"
| "joinable (Log l m k) = (\<lambda>n. joinable k n)"
| "joinable (Open_in p k) = (\<lambda>n. \<forall>c. joinable (k c) n)"
| "joinable (Open_out p k) = (\<lambda>n. \<forall>b. joinable (k b) n)"
| "joinable (Write p d k) = (\<lambda>n. joinable k n)"
| "joinable (Async t k) = (\<lambda>n. joinable (k n) (Suc n))"
| "joinable (Get h k) = (\<lambda>n. 0 < h \<and> h < n \<and> (\<forall>r. joinable (k r) n))"

text \<open>
  A pool can be drained when its calling thread waits only for tasks started before and
  no task starts a thread or waits for one.
\<close>

definition drainable :: "pool \<Rightarrow> bool" where
  "drainable pl =
     (threads pl \<noteq> []
      \<and> joinable (threads pl ! 0) (length (threads pl))
      \<and> (\<forall>i. 0 < i \<and> i < length (threads pl) \<longrightarrow> thread_free (threads pl ! i)))"


section \<open>The two schedulers compared\<close>

text \<open>
  \<open>sequential env P n\<close> is the program \<open>P\<close> of the calling thread of a pool of \<open>n\<close>
  threads, with each task run where \<open>P\<close> starts it and each future found ready.
\<close>

primrec sequential :: "env \<Rightarrow> 'a prog \<Rightarrow> nat \<Rightarrow> 'a prog" where
  "sequential env (Return x) = (\<lambda>n. Return x)"
| "sequential env (Throw e) = (\<lambda>n. Throw e)"
| "sequential env (Log l m k) = (\<lambda>n. Log l m (sequential env k n))"
| "sequential env (Open_in p k) = (\<lambda>n. Open_in p (\<lambda>c. sequential env (k c) n))"
| "sequential env (Open_out p k) = (\<lambda>n. Open_out p (\<lambda>b. sequential env (k b) n))"
| "sequential env (Write p d k) = (\<lambda>n. Write p d (sequential env k n))"
| "sequential env (Async t k) =
     (\<lambda>n. bind (task_body env t) (\<lambda>_. sequential env (k n) (Suc n)))"
| "sequential env (Get h k) = (\<lambda>n. sequential env (k None) n)"

text \<open>
  The calling thread of a directory run touches no file itself. How it ends, what it
  logs and the tasks it starts, in a pool of \<open>n\<close> threads where no task ends with an
  exception, can be read off its program.
\<close>

primrec plan :: "'a prog \<Rightarrow> nat \<Rightarrow> 'a outcome \<times> event list \<times> task list" where
  "plan (Return x) = (\<lambda>n. (Normal x, [], []))"
| "plan (Throw e) = (\<lambda>n. (Raised e, [], []))"
| "plan (Log l m k) = (\<lambda>n. case plan k n of (r, evs, ts) \<Rightarrow> (r, Logged l m # evs, ts))"
| "plan (Open_in p k) = (\<lambda>n. (Needs_threads, [], []))"
| "plan (Open_out p k) = (\<lambda>n. (Needs_threads, [], []))"
| "plan (Write p d k) = (\<lambda>n. (Needs_threads, [], []))"
| "plan (Async t k) = (\<lambda>n. case plan (k n) (Suc n) of (r, evs, ts) \<Rightarrow> (r, evs, t # ts))"
| "plan (Get h k) = (\<lambda>n. plan (k None) n)"

text \<open>
  The jobs of a run: the tasks that are running, then those still to be started, each
  with the file it works on. A job is confined to its file, so what it will have left in
  the file and added to the trace when it ends is known from the content of the file now.
\<close>

definition task_inode :: "env \<Rightarrow> task \<Rightarrow> inode" where
  "task_inode env t = inode_of env (t_path t)"

definition jobs :: "env \<Rightarrow> task list \<Rightarrow> unit prog list \<Rightarrow> unit prog list" where
  "jobs env ts running = running @ map (task_body env) (drop (length running) ts)"

definition job_files ::
  "env \<Rightarrow> inode list \<Rightarrow> unit prog list \<Rightarrow> (inode \<rightharpoonup> string) \<Rightarrow> (inode \<rightharpoonup> string)"
where
  "job_files env ns Ps f =
     (\<lambda>x. case map_of (zip ns Ps) x of
             None \<Rightarrow> f x
           | Some P \<Rightarrow> fst (snd (local env P (f x))))"

definition job_events ::
  "env \<Rightarrow> inode list \<Rightarrow> unit prog list \<Rightarrow> (inode \<rightharpoonup> string) \<Rightarrow> event multiset"
where
  "job_events env ns Ps f =
     sum_list (map (\<lambda>(n, P). mset (snd (snd (local env P (f n))))) (zip ns Ps))"

text \<open>
  A pool is on the plan \<open>ts\<close> with the end \<open>final\<close> when its threads after the first are
  jobs for the first tasks of \<open>ts\<close>, the calling thread is still to start the others,
  and running every job to its end and the calling thread along its plan gives \<open>final\<close>:
  how the calling thread ends, the content of the files and the events of the trace, each
  as many times as it occurs.
\<close>

definition on_plan ::
  "env \<Rightarrow> task list \<Rightarrow> unit outcome \<times> (inode \<rightharpoonup> string) \<times> event multiset \<Rightarrow> pool \<Rightarrow> bool"
where
  "on_plan env ts final pl =
     (case threads pl of
        [] \<Rightarrow> False
      | main # running \<Rightarrow>
          length running \<le> length ts
          \<and> (\<forall>j<length ts.
                confined env (task_inode env (ts ! j)) (jobs env ts running ! j)
                \<and> always (\<lambda>a. \<forall>x. a \<noteq> Raise x) (jobs env ts running ! j))
          \<and> (case plan main (Suc (length running)) of
                (r, evs, rest) \<Rightarrow>
                  rest = drop (length running) ts
                  \<and> final =
                      (r,
                       job_files env (map (task_inode env) ts) (jobs env ts running)
                         (files (shared pl)),
                       mset (trace (shared pl)) + mset evs
                       + job_events env (map (task_inode env) ts) (jobs env ts running)
                           (files (shared pl)))))"

text \<open>
  A directory with one file under two names, hard links, that holds GBK text. The
  detector of this environment knows the text of the file and calls every other content
  UTF-8; its converter gives the UTF-8 text whatever it is given.
\<close>

definition link_env :: env where
  "link_env =
     \<lparr>inode_of = (\<lambda>p. if p = ''d/a.txt'' \<or> p = ''d/b.txt'' then 1 else 0),
      is_directory = (\<lambda>p. Inr (p = ''d'')),
      is_regular_file = (\<lambda>p. Inr (p = ''d/a.txt'' \<or> p = ''d/b.txt'')),
      recursive_directory_iterator =
        (\<lambda>p. if p = ''d''
             then Entry ''d/a.txt'' (Inr True) (Entry ''d/b.txt'' (Inr True) End)
             else End),
      writable = (\<lambda>p. True),
      uchardet =
        (\<lambda>data. if data = ''G'' then Charset (Some ''GBK'') else Charset (Some ''UTF-8'')),
      ucnv_convert = (\<lambda>to from capacity input len. Inr ''U''),
      regex_other = (\<lambda>pattern. Inl ''regex_error''),
      regex_error_what = (\<lambda>pattern. ''regex_error''),
      length_error_what = ''cannot create std::vector larger than max_size()''\<rparr>"

definition link_world :: world where
  "link_world = \<lparr>files = [1 \<mapsto> ''G''], trace = []\<rparr>"


text \<open>
  \<open>awaits h P\<close>: however \<open>P\<close> continues, it does not end before it has waited for the
  future \<open>h\<close>. \<open>joins P n\<close>: in a pool of \<open>n\<close> threads, \<open>P\<close> waits for every task it
  starts. \<open>calm P\<close>: as long as every future it waits for is found without an exception,
  \<open>P\<close> does not log that a task failed.
\<close>

primrec awaits :: "nat \<Rightarrow> 'a prog \<Rightarrow> bool" where
  "awaits h (Return x) = False"
| "awaits h (Throw e) = False"
| "awaits h (Log l m k) = awaits h k"
| "awaits h (Open_in p k) = (\<forall>c. awaits h (k c))"
| "awaits h (Open_out p k) = (\<forall>b. awaits h (k b))"
| "awaits h (Write p d k) = awaits h k"
| "awaits h (Async t k) = (\<forall>n. awaits h (k n))"
| "awaits h (Get h' k) = (h' = h \<or> (\<forall>r. awaits h (k r)))"

primrec joins :: "'a prog \<Rightarrow> nat \<Rightarrow> bool" where
  "joins (Return x) = (\<lambda>n. True)"
| "joins (Throw e) = (\<lambda>n. True)"
| "joins (Log l m k) = (\<lambda>n. joins k n)"
| "joins (Open_in p k) = (\<lambda>n. \<forall>c. joins (k c) n)"
| "joins (Open_out p k) = (\<lambda>n. \<forall>b. joins (k b) n)"
| "joins (Write p d k) = (\<lambda>n. joins k n)"
| "joins (Async t k) = (\<lambda>n. awaits n (k n) \<and> joins (k n) (Suc n))"
| "joins (Get h k) = (\<lambda>n. \<forall>r. joins (k r) n)"

fun task_failed :: "event \<Rightarrow> bool" where
  "task_failed (Logged l m) = (l = ERROR \<and> take 26 m = ''Asynchronous task failed: '')"
| "task_failed e = False"

primrec calm :: "'a prog \<Rightarrow> bool" where
  "calm (Return x) = True"
| "calm (Throw e) = True"
| "calm (Log l m k) = (\<not> task_failed (Logged l m) \<and> calm k)"
| "calm (Open_in p k) = (\<forall>c. calm (k c))"
| "calm (Open_out p k) = (\<forall>b. calm (k b))"
| "calm (Write p d k) = calm k"
| "calm (Async t k) = (\<forall>h. calm (k h))"
| "calm (Get h k) = calm (k None)"

text \<open>
  A pool is joined when its calling thread is calm and waits for every task that has not
  ended, those it has started and those it will start, and no task starts a thread, logs
  that a task failed or ends with an exception.
\<close>

definition joined :: "pool \<Rightarrow> bool" where
  "joined pl =
     (threads pl \<noteq> []
      \<and> joins (threads pl ! 0) (length (threads pl))
      \<and> calm (threads pl ! 0)
      \<and> (\<forall>j. 0 < j \<and> j < length (threads pl) \<longrightarrow>
            thread_free (threads pl ! j)
            \<and> always (\<lambda>a. case a of Act e \<Rightarrow> \<not> task_failed e | Spawn t \<Rightarrow> True
                          | Raise x \<Rightarrow> False) (threads pl ! j)
            \<and> (ended (threads pl ! j) \<or> awaits j (threads pl ! 0))))"

section \<open>Properties\<close>

subsection \<open>Evaluation and sequencing\<close>

lemma tolower_Char [simp]:
  "tolower (Char b0 b1 b2 b3 b4 b5 b6 b7) =
     (if \<not> b7 \<and> b6 \<and> \<not> b5
         \<and> ((\<not> b4 \<and> (b0 \<or> b1 \<or> b2 \<or> b3)) \<or> (b4 \<and> (\<not> b3 \<or> (\<not> b2 \<and> \<not> (b0 \<and> b1)))))
      then Char b0 b1 b2 b3 b4 True b6 b7 else Char b0 b1 b2 b3 b4 b5 b6 b7)"
  by (cases b0; cases b1; cases b2; cases b3; cases b4; cases b5; cases b6; cases b7;
      simp add: tolower_def char_of_def bit_Suc_0_iff)

lemma exec_bind:
  "exec env (bind m f) w =
     (case exec env m w of
        (Normal x, w') \<Rightarrow> exec env (f x) w'
      | (Raised e, w') \<Rightarrow> (Raised e, w')
      | (Needs_threads, w') \<Rightarrow> (Needs_threads, w'))"
  by (induction m arbitrary: w) auto

lemma exec_try_catch:
  "exec env (try_catch m h) w =
     (case exec env m w of
        (Normal x, w') \<Rightarrow> (Normal x, w')
      | (Raised e, w') \<Rightarrow> exec env (h e) w'
      | (Needs_threads, w') \<Rightarrow> (Needs_threads, w'))"
  by (induction m arbitrary: w) auto

subsection \<open>The name normalizer\<close>

lemma exec_mapEncodingName:
  "exec env (mapEncodingName raw) w =
     (Normal (normalize_spec raw),
      if raw = [] \<or> map tolower raw \<in> fst ` set alias_table then w
      else emit (Logged WARN (''Unknown encoding name encountered: '' @ raw)) w)"
  by (simp add: mapEncodingName_def normalize_spec_def alias_table_def Let_def)

lemma normalize_spec_idem: "normalize_spec (normalize_spec x) = normalize_spec x"
  by (simp add: normalize_spec_def alias_table_def)

lemma normalize_spec_empty: "normalize_spec x = [] \<longleftrightarrow> x = []"
  by (simp add: normalize_spec_def alias_table_def)

text \<open>
  C6. What \<open>mapEncodingName\<close> returns is the case-insensitive lookup in the alias table
  of the specification: the canonical name of an alias, the empty string for the empty
  string, and any other name as it was given.
\<close>

theorem mapEncodingName_alias_lookup:
  "fst (exec env (mapEncodingName raw) w) = Normal (normalize_spec raw)"
  by (simp add: exec_mapEncodingName)

theorem mapEncodingName_alias_lookup_witness:
  "fst (exec ex_env (mapEncodingName ''Utf8'') ex_world) = Normal ''UTF-8''
   \<and> fst (exec ex_env (mapEncodingName ''ISO8859-1'') ex_world) = Normal ''ISO-8859-1''
   \<and> fst (exec ex_env (mapEncodingName ''Shift_JIS'') ex_world) = Normal ''Shift_JIS''
   \<and> fst (exec ex_env (mapEncodingName []) ex_world) = Normal []"
  using mapEncodingName_alias_lookup [of ex_env "''Utf8''" ex_world]
    mapEncodingName_alias_lookup [of ex_env "''ISO8859-1''" ex_world]
    mapEncodingName_alias_lookup [of ex_env "''Shift_JIS''" ex_world]
    mapEncodingName_alias_lookup [of ex_env "[]" ex_world]
  by (simp add: normalize_spec_def alias_table_def)

text \<open>
  C7. Normalizing a name that \<open>mapEncodingName\<close> returned gives the same name again. This
  holds for every input, so in particular for every supported alias.
\<close>

theorem mapEncodingName_idempotent:
  "\<exists>y. fst (exec env (mapEncodingName x) w) = Normal y
       \<and> fst (exec env' (mapEncodingName y) w') = Normal y"
  by (simp add: exec_mapEncodingName normalize_spec_idem)

theorem mapEncodingName_idempotent_witness:
  "fst (exec ex_env (mapEncodingName ''utf8'') ex_world) = Normal ''UTF-8''
   \<and> fst (exec ex_env (mapEncodingName ''UTF-8'') ex_world) = Normal ''UTF-8''"
  using mapEncodingName_idempotent [of ex_env "''utf8''" ex_world ex_env ex_world]
  by (simp add: exec_mapEncodingName normalize_spec_def alias_table_def)

subsection \<open>The file job\<close>

lemma files_emit [simp]: "files (emit e w) = files w"
  and trace_emit [simp]: "trace (emit e w) = trace w @ [e]"
  by (simp_all add: emit_def)

lemma files_open_out [simp]:
  "files (open_out env p w) = (if writable env p then (files w)(inode_of env p \<mapsto> []) else files w)"
  and trace_open_out [simp]: "trace (open_out env p w) = trace w @ [Opened_out p]"
  by (simp_all add: open_out_def)

lemma files_write_out [simp]: "files (write_out env p d w) = (files w)(inode_of env p \<mapsto> d)"
  and trace_write_out [simp]: "trace (write_out env p d w) = trace w @ [Wrote p d]"
  by (simp_all add: write_out_def)

lemma world_eqI: "files w = files w' \<Longrightarrow> trace w = trace w' \<Longrightarrow> (w::world) = w'"
  by simp

lemma exec_local:
  "confined env n P \<Longrightarrow>
   exec env P w =
     (case local env P (files w n) of
        (r, c', evs) \<Rightarrow> (r, \<lparr>files = (files w)(n := c'), trace = trace w @ evs\<rparr>))"
proof (induction P arbitrary: w)
  case (Log l m k)
  then show ?case by (auto split: prod.splits simp: fun_eq_iff)
next
  case (Open_in p k)
  then show ?case by (auto split: prod.splits simp: fun_eq_iff)
next
  case (Open_out p k)
  then show ?case by (auto split: prod.splits simp: fun_eq_iff)
next
  case (Write p d k)
  then show ?case by (auto split: prod.splits simp: fun_eq_iff)
qed simp_all

lemma local_bind:
  "local env (bind m f) c =
     (case local env m c of
        (Normal x, c', evs) \<Rightarrow> (case local env (f x) c' of (r, c'', evs') \<Rightarrow> (r, c'', evs @ evs'))
      | (Raised e, c', evs) \<Rightarrow> (Raised e, c', evs)
      | (Needs_threads, c', evs) \<Rightarrow> (Needs_threads, c', evs))"
  by (induction m arbitrary: c) (auto split: prod.splits outcome.splits)

lemma local_try_catch:
  "local env (try_catch m h) c =
     (case local env m c of
        (Normal x, c', evs) \<Rightarrow> (Normal x, c', evs)
      | (Raised e, c', evs) \<Rightarrow> (case local env (h e) c' of (r, c'', evs') \<Rightarrow> (r, c'', evs @ evs'))
      | (Needs_threads, c', evs) \<Rightarrow> (Needs_threads, c', evs))"
  by (induction m arbitrary: c) (auto split: prod.splits outcome.splits)

lemma confined_bind: "confined env n m \<Longrightarrow> (\<And>x. confined env n (f x)) \<Longrightarrow> confined env n (bind m f)"
  by (induction m) auto

lemma confined_try_catch: "confined env n m \<Longrightarrow> (\<And>e. confined env n (h e)) \<Longrightarrow> confined env n (try_catch m h)"
  by (induction m) auto

lemma confined_mapEncodingName: "confined env n (mapEncodingName x)"
  by (simp add: mapEncodingName_def Let_def)

lemma confined_detectEncoding: "confined env n (detectEncoding env d sf)"
  by (simp add: detectEncoding_def Let_def split: uchardet_result.splits sum.splits option.splits)

lemma confined_convertEncoding: "confined env n (convertEncoding env d f t)"
  by (simp add: convertEncoding_def Let_def split: sum.splits)

lemma confined_convertFile: "confined env (inode_of env p) (convertFile env p to sf)"
  unfolding convertFile_def
  by (auto intro!: confined_bind confined_try_catch confined_mapEncodingName confined_detectEncoding confined_convertEncoding split: option.splits)


lemma local_mapEncodingName:
  "local env (mapEncodingName raw) c =
     (Normal (normalize_spec raw), c,
      if raw = [] \<or> map tolower raw \<in> fst ` set alias_table then []
      else [Logged WARN (''Unknown encoding name encountered: '' @ raw)])"
  by (simp add: mapEncodingName_def normalize_spec_def alias_table_def Let_def)

lemma local_detectEncoding_content: "fst (snd (local env (detectEncoding env d sf) c)) = c"
  by (simp add: detectEncoding_def Let_def split: uchardet_result.splits sum.splits option.splits)

lemma local_convertEncoding_content: "fst (snd (local env (convertEncoding env d f t) c)) = c"
  by (simp add: convertEncoding_def Let_def split: sum.splits)

lemma local_log_only:
  "log_only P \<Longrightarrow> local env P c = (fst (local env P None), c, snd (snd (local env P None)))"
proof (induction P arbitrary: c)
  case (Log l m k)
  from Log.IH [OF Log.prems [simplified], of c] Log.IH [OF Log.prems [simplified], of None]
  show ?case by (simp add: case_prod_unfold)
qed simp_all

lemma log_only_no_file_event:
  "log_only P \<Longrightarrow> filter file_event (snd (snd (local env P c))) = []"
  by (induction P arbitrary: c) (simp_all add: case_prod_unfold)

lemma log_only_detectEncoding: "log_only (detectEncoding env d sf)"
  by (simp add: detectEncoding_def Let_def split: uchardet_result.splits sum.splits option.splits)

lemma log_only_convertEncoding: "log_only (convertEncoding env d f t)"
  by (simp add: convertEncoding_def Let_def split: sum.splits)

lemma transcoded_outcomes:
  "transcoded env d to sf =
     (case fst (local env (detectEncoding env d sf) None) of
        Normal name \<Rightarrow>
          if name = ''UNKNOWN'' \<or> name = ''MISMATCH'' \<or> name = [] then None
          else (case fst (local env (convertEncoding env d (normalize_spec name) to) None) of
                  Normal out \<Rightarrow> Some out
                | _ \<Rightarrow> None)
      | _ \<Rightarrow> None)"
  by (simp add: transcoded_def detectEncoding_def convertEncoding_def Let_def
      split: uchardet_result.splits sum.splits option.splits)

lemma local_convertFile_file_events:
  "filter file_event (snd (snd (local env (convertFile env p to sf) c))) =
     (case c of
        None \<Rightarrow> [Opened_in p]
      | Some d \<Rightarrow>
          (case transcoded env d to sf of
             None \<Rightarrow> [Opened_in p]
           | Some out \<Rightarrow>
               if writable env p then [Opened_in p, Opened_out p, Wrote p out]
               else [Opened_in p, Opened_out p]))"
proof (cases c)
  case None
  then show ?thesis by (simp add: convertFile_def)
next
  case (Some d)
  define rd where "rd = fst (local env (detectEncoding env d sf) None)"
  define ed where "ed = snd (snd (local env (detectEncoding env d sf) None))"
  have D: "local env (detectEncoding env d sf) c' = (rd, c', ed)" for c'
    unfolding rd_def ed_def by (rule local_log_only [OF log_only_detectEncoding])
  have ed: "filter file_event ed = []"
    unfolding ed_def by (rule log_only_no_file_event [OF log_only_detectEncoding])
  show ?thesis
  proof (cases rd)
    case (Normal name)
    show ?thesis
    proof (cases "name = ''UNKNOWN'' \<or> name = ''MISMATCH'' \<or> name = []")
      case True
      then show ?thesis
        using Some Normal D ed rd_def [symmetric]
        by (auto simp add: convertFile_def local_bind transcoded_outcomes local_mapEncodingName normalize_spec_empty)
    next
      case False
      define rc where "rc = fst (local env (convertEncoding env d (normalize_spec name) to) None)"
      define ec where "ec = snd (snd (local env (convertEncoding env d (normalize_spec name) to) None))"
      have C: "local env (convertEncoding env d (normalize_spec name) to) c' = (rc, c', ec)" for c'
        unfolding rc_def ec_def by (rule local_log_only [OF log_only_convertEncoding])
      have ec: "filter file_event ec = []"
        unfolding ec_def by (rule log_only_no_file_event [OF log_only_convertEncoding])
      show ?thesis
        using Some Normal D ed C ec False rd_def [symmetric] rc_def [symmetric]
        by (cases rc) (simp_all add: convertFile_def local_bind local_try_catch transcoded_outcomes
            local_mapEncodingName normalize_spec_empty)
    qed
  next
    case (Raised e)
    then show ?thesis
      using Some D ed rd_def [symmetric] by (simp add: convertFile_def local_bind transcoded_outcomes)
  next
    case Needs_threads
    then show ?thesis
      using Some D ed rd_def [symmetric] by (simp add: convertFile_def local_bind transcoded_outcomes)
  qed
qed


lemma local_convertFile_content:
  "fst (snd (local env (convertFile env p to sf) c)) =
     (case c of
        None \<Rightarrow> None
      | Some d \<Rightarrow>
          (case transcoded env d to sf of
             Some out \<Rightarrow> if writable env p then Some out else Some d
           | None \<Rightarrow> Some d))"
proof (cases c)
  case None
  then show ?thesis by (simp add: convertFile_def)
next
  case (Some d)
  define rd where "rd = fst (local env (detectEncoding env d sf) None)"
  define ed where "ed = snd (snd (local env (detectEncoding env d sf) None))"
  have D: "local env (detectEncoding env d sf) c' = (rd, c', ed)" for c'
    unfolding rd_def ed_def by (rule local_log_only [OF log_only_detectEncoding])
  show ?thesis
  proof (cases rd)
    case (Normal name)
    show ?thesis
    proof (cases "name = ''UNKNOWN'' \<or> name = ''MISMATCH'' \<or> name = []")
      case True
      then show ?thesis
        using Some Normal D rd_def [symmetric]
        by (auto simp add: convertFile_def local_bind transcoded_outcomes local_mapEncodingName
            normalize_spec_empty)
    next
      case False
      define rc where "rc = fst (local env (convertEncoding env d (normalize_spec name) to) None)"
      define ec where
        "ec = snd (snd (local env (convertEncoding env d (normalize_spec name) to) None))"
      have C: "local env (convertEncoding env d (normalize_spec name) to) c' = (rc, c', ec)"
        for c'
        unfolding rc_def ec_def by (rule local_log_only [OF log_only_convertEncoding])
      show ?thesis
        using Some Normal D C False rd_def [symmetric] rc_def [symmetric]
        by (cases rc) (simp_all add: convertFile_def local_bind local_try_catch
            transcoded_outcomes local_mapEncodingName normalize_spec_empty)
    qed
  next
    case (Raised e)
    then show ?thesis
      using Some D rd_def [symmetric]
      by (simp add: convertFile_def local_bind transcoded_outcomes)
  next
    case Needs_threads
    then show ?thesis
      using Some D rd_def [symmetric]
      by (simp add: convertFile_def local_bind transcoded_outcomes)
  qed
qed

lemma new_events_append [simp]: "new_events w \<lparr>files = fs, trace = trace w @ evs\<rparr> = evs"
  by (simp add: new_events_def)

lemma in_set_file_events: "file_event e \<Longrightarrow> e \<in> set evs \<longleftrightarrow> e \<in> set (filter file_event evs)"
  by simp

text \<open>
  C9. The file job rewrites a file only when detection, the source-encoding filter, the
  normalization of the detected name and the transcoding have all succeeded
  (\<open>transcoded\<close> gives the bytes): the file is opened for writing exactly then, and its
  content changes only then, to those bytes, when it can be opened for writing. In every
  other case, skip or failure, the content of every file is as before.
\<close>

theorem convertFile_rewrites_only_after_transcoding:
  assumes "exec env (convertFile env p to sf) w = (r, w')"
  shows "files w' =
           (case files w (inode_of env p) of
              None \<Rightarrow> files w
            | Some d \<Rightarrow>
                (case transcoded env d to sf of
                   Some out \<Rightarrow>
                     if writable env p then (files w)(inode_of env p \<mapsto> out) else files w
                 | None \<Rightarrow> files w))
         \<and> (\<forall>q. Opened_out q \<in> set (new_events w w') \<longleftrightarrow>
                q = p \<and> (\<exists>d out. files w (inode_of env p) = Some d
                                 \<and> transcoded env d to sf = Some out))
         \<and> (\<forall>q x. Wrote q x \<in> set (new_events w w') \<longleftrightarrow>
                q = p \<and> writable env p
                \<and> (\<exists>d. files w (inode_of env p) = Some d \<and> transcoded env d to sf = Some x))"
proof -
  obtain r0 c' evs where L: "local env (convertFile env p to sf) (files w (inode_of env p)) = (r0, c', evs)"
    by (cases "local env (convertFile env p to sf) (files w (inode_of env p))") auto
  from assms exec_local [OF confined_convertFile, of env p to sf w] L
  have w': "w' = \<lparr>files = (files w)(inode_of env p := c'), trace = trace w @ evs\<rparr>"
    by simp
  from L local_convertFile_content [of env p to sf "files w (inode_of env p)"]
  have c': "c' = (case files w (inode_of env p) of
        None \<Rightarrow> None
      | Some d \<Rightarrow>
          (case transcoded env d to sf of
             Some out \<Rightarrow> if writable env p then Some out else Some d
           | None \<Rightarrow> Some d))"
    by simp
  from L local_convertFile_file_events [of env p to sf "files w (inode_of env p)"]
  have evs: "filter file_event evs = (case files w (inode_of env p) of
        None \<Rightarrow> [Opened_in p]
      | Some d \<Rightarrow>
          (case transcoded env d to sf of
             None \<Rightarrow> [Opened_in p]
           | Some out \<Rightarrow>
               if writable env p then [Opened_in p, Opened_out p, Wrote p out]
               else [Opened_in p, Opened_out p]))"
    by simp
  have 1: "files w' = (case files w (inode_of env p) of
              None \<Rightarrow> files w
            | Some d \<Rightarrow>
                (case transcoded env d to sf of
                   Some out \<Rightarrow>
                     if writable env p then (files w)(inode_of env p \<mapsto> out) else files w
                 | None \<Rightarrow> files w))"
    unfolding w' c' by (auto split: option.splits simp: fun_eq_iff)
  have 2: "Opened_out q \<in> set (new_events w w') \<longleftrightarrow>
                q = p \<and> (\<exists>d out. files w (inode_of env p) = Some d
                                 \<and> transcoded env d to sf = Some out)" for q
    unfolding w' new_events_append
    by (subst in_set_file_events) (auto simp: evs split: option.splits)
  have 3: "Wrote q x \<in> set (new_events w w') \<longleftrightarrow>
                q = p \<and> writable env p
                \<and> (\<exists>d. files w (inode_of env p) = Some d \<and> transcoded env d to sf = Some x)" for q x
    unfolding w' new_events_append
    by (subst in_set_file_events) (auto simp: evs split: option.splits)
  from 1 2 3 show ?thesis by blast
qed

theorem convertFile_rewrites_only_after_transcoding_witness:
  "files (snd (exec ex_env (convertFile ex_env ''d/a.txt'' ''GBK'' []) ex_world))
     = [1 \<mapsto> ''hello'', 2 \<mapsto> ''world'']
   \<and> Opened_out ''d/a.txt''
       \<in> set (new_events ex_world
                 (snd (exec ex_env (convertFile ex_env ''d/a.txt'' ''GBK'' []) ex_world)))
   \<and> files (snd (exec ex_env (convertFile ex_env ''d/a.txt'' ''latin9'' []) ex_world))
       = files ex_world
   \<and> Opened_out ''d/a.txt''
       \<notin> set (new_events ex_world
                 (snd (exec ex_env (convertFile ex_env ''d/a.txt'' ''latin9'' []) ex_world)))"
  using convertFile_rewrites_only_after_transcoding
          [of ex_env "''d/a.txt''" "''GBK''" "[]" ex_world
              "fst (exec ex_env (convertFile ex_env ''d/a.txt'' ''GBK'' []) ex_world)"
              "snd (exec ex_env (convertFile ex_env ''d/a.txt'' ''GBK'' []) ex_world)"]
        convertFile_rewrites_only_after_transcoding
          [of ex_env "''d/a.txt''" "''latin9''" "[]" ex_world
              "fst (exec ex_env (convertFile ex_env ''d/a.txt'' ''latin9'' []) ex_world)"
              "snd (exec ex_env (convertFile ex_env ''d/a.txt'' ''latin9'' []) ex_world)"]
  by (simp add: ex_env_def ex_world_def transcoded_def normalize_spec_def alias_table_def fun_eq_iff)

subsection \<open>The filename filter\<close>


lemma rx_scan_ordinary:
  "\<forall>c\<in>set cs. ordinary c \<Longrightarrow>
   rx_scan (cs @ rest) (alts, cur, l) st =
     rx_scan rest (alts, rev (map Chr cs) @ cur, if cs = [] then l else Atom_term) st"
proof (induction cs arbitrary: cur l)
  case Nil
  then show ?case by simp
next
  case (Cons c cs)
  from Cons.prems have c: "ordinary c" and cs: "\<forall>c\<in>set cs. ordinary c" by simp_all
  from c have "rx_scan ((c # cs) @ rest) (alts, cur, l) st = rx_scan (cs @ rest) (alts, Chr c # cur, Atom_term) st"
    by (simp add: ordinary_def)
  also have "\<dots> = rx_scan rest (alts, rev (map Chr cs) @ Chr c # cur, Atom_term) st"
    using Cons.IH [OF cs, of "Chr c # cur" Atom_term] by simp
  finally show ?case by simp
qed

lemma rx_scan_alternatives:
  "as \<noteq> [] \<Longrightarrow> \<forall>a\<in>set as. \<forall>c\<in>set a. ordinary c \<Longrightarrow>
   \<exists>l. rx_scan (alternatives as @ rest) (done, [], No_term) st =
     rx_scan rest (done @ map lit (butlast as), rev (map Chr (last as)), l) st"
proof (induction as arbitrary: "done" rule: alternatives.induct)
  case 1
  then show ?case by simp
next
  case (2 a)
  then show ?case using rx_scan_ordinary [of a rest "done" "[]" No_term st] by auto
next
  case (3 a b bs)
  from "3.prems" have a: "\<forall>c\<in>set a. ordinary c" and bs: "\<forall>x\<in>set (b # bs). \<forall>c\<in>set x. ordinary c"
    by simp_all
  have "rx_scan (alternatives (a # b # bs) @ rest) (done, [], No_term) st
      = rx_scan (''|'' @ alternatives (b # bs) @ rest) (done, rev (map Chr a), if a = [] then No_term else Atom_term) st"
    using rx_scan_ordinary [OF a, of "''|'' @ alternatives (b # bs) @ rest" "done" "[]" No_term st] by simp
  also have "\<dots> = rx_scan (alternatives (b # bs) @ rest) (done @ [lit a], [], No_term) st"
    by (simp add: lit_def backslash_def)
  finally show ?case
    using "3.IH" [OF _ bs, of "done @ [lit a]"] by auto
qed

lemma alt_of_snoc_last: "as \<noteq> [] \<Longrightarrow> map lit (butlast as) @ [seq_of (rev (rev (map Chr (last as))))] = map lit as"
  by (induction as) (auto simp: lit_def)

lemma rx_parse_filter:
  assumes "as \<noteq> []" "\<forall>a\<in>set as. \<forall>c\<in>set a. ordinary c"
  shows "rx_parse (''^.*'' @ [backslash] @ ''.('' @ alternatives as @ '')$'') =
           Parsed (Seq Bol (Seq (Star Any) (Seq (Chr CHR ''.'') (Seq (alt_of (map lit as)) (Seq Eol Eps)))))"
proof -
  obtain a as' where as: "as = a # as'" using assms(1) by (cases as) auto
  have nq: "hd (alternatives as @ '')$'') \<noteq> CHR ''?''"
    using assms(2) unfolding as by (cases a; cases as') (auto simp: ordinary_def)
  have ne: "alternatives as @ '')$'' \<noteq> []" by simp
  have "rx_parse (''^.*'' @ [backslash] @ ''.('' @ alternatives as @ '')$'')
      = rx_scan (alternatives as @ '')$'') ([], [], No_term) [([], [Chr CHR ''.'', Star Any, Bol], Atom_term)]"
    using nq ne
    by (cases "alternatives as @ '')$''")
       (simp_all add: rx_parse_def backslash_def syntax_char_def quantify_def)
  also obtain l where "\<dots> = rx_scan '')$'' ([] @ map lit (butlast as), rev (map Chr (last as)), l) [([], [Chr CHR ''.'', Star Any, Bol], Atom_term)]"
    using rx_scan_alternatives [OF assms, of "'')$''" "[]" "[([], [Chr CHR ''.'', Star Any, Bol], Atom_term)]"] by auto
  also have "\<dots> = Parsed (Seq Bol (Seq (Star Any) (Seq (Chr CHR ''.'') (Seq (alt_of (map lit as)) (Seq Eol Eps)))))"
    using alt_of_snoc_last [OF assms(1)] by (simp add: backslash_def)
  finally show ?thesis .
qed



lemma rests_Seq:
  assumes "\<And>b t. rests s (b, t) = F t"
  shows "rests (Seq r s) p = (\<Union>t\<in>rests r p. F t)"
proof -
  have "rests (Seq r s) p = (\<Union>q\<in>set (rx_run r p). rests s q)"
    by (auto simp: rests_def)
  also have "\<dots> = (\<Union>q\<in>set (rx_run r p). F (snd q))"
    using assms by (metis prod.collapse)
  also have "\<dots> = (\<Union>t\<in>rests r p. F t)"
    by (auto simp: rests_def)
  finally show ?thesis .
qed

lemma rests_Eps [simp]: "rests Eps (b, t) = {t}"
  by (simp add: rests_def)

lemma rests_Eol [simp]: "rests Eol (b, t) = (if t = [] then {[]} else {})"
  by (simp add: rests_def)

lemma rests_Bol [simp]: "rests Bol (False, t) = {t}"
  by (simp add: rests_def)

lemma rests_Chr: "rests (Chr c) (b, t) = {u. \<exists>x. t = x # u \<and> tolower x = tolower c}"
  by (auto simp: rests_def split: list.splits)

lemma star_run_Any:
  "length s \<le> n \<Longrightarrow>
   snd ` set (star_run (rx_run Any) n (b, s)) =
     {u. \<exists>pre. s = pre @ u \<and> (\<forall>c\<in>set pre. \<not> line_terminator c)}"
proof (induction s arbitrary: n b)
  case Nil
  then show ?case by (cases n) auto
next
  case (Cons x xs)
  then obtain m where n: "n = Suc m" and m: "length xs \<le> m" by (cases n) auto
  show ?case
  proof (cases "line_terminator x")
    case True
    have "{u. \<exists>pre. x # xs = pre @ u \<and> (\<forall>c\<in>set pre. \<not> line_terminator c)} = {x # xs}"
      using True by (auto simp: Cons_eq_append_conv)
    then show ?thesis using True n by simp
  next
    case False
    have "{u. \<exists>pre. x # xs = pre @ u \<and> (\<forall>c\<in>set pre. \<not> line_terminator c)}
        = insert (x # xs) {u. \<exists>pre. xs = pre @ u \<and> (\<forall>c\<in>set pre. \<not> line_terminator c)}"
      using False by (auto simp: Cons_eq_append_conv)
    then show ?thesis using False n Cons.IH [OF m, of True] by simp
  qed
qed

lemma rx_run_Star: "rx_run (Star r) (b, s) = star_run (rx_run r) (length s) (b, s)"
  by simp

lemma rests_Star_Any:
  "rests (Star Any) (b, s) = {u. \<exists>pre. s = pre @ u \<and> (\<forall>c\<in>set pre. \<not> line_terminator c)}"
  unfolding rests_def rx_run_Star by (rule star_run_Any [OF order_refl])

lemma rests_lit: "rests (lit a) (b, t) = {u. \<exists>x. t = x @ u \<and> same_nocase x a}"
proof (induction a arbitrary: b t)
  case Nil
  then show ?case by (simp add: lit_def same_nocase_def)
next
  case (Cons c cs)
  have "rests (lit (c # cs)) (b, t) = (\<Union>t'\<in>rests (Chr c) (b, t). {u. \<exists>x. t' = x @ u \<and> same_nocase x cs})"
    unfolding lit_def list.map seq_of.simps
    by (rule rests_Seq) (use Cons.IH in \<open>simp add: lit_def\<close>)
  also have "\<dots> = {u. \<exists>x. t = x @ u \<and> same_nocase x (c # cs)}"
    by (auto simp: rests_Chr same_nocase_def Cons_eq_append_conv) 
  finally show ?case .
qed

lemma rests_Alt: "rests (Alt r s) p = rests r p \<union> rests s p"
  by (auto simp: rests_def)

lemma rests_alt_of:
  "as \<noteq> [] \<Longrightarrow>
   rests (alt_of (map lit as)) (b, t) = {u. \<exists>a\<in>set as. \<exists>x. t = x @ u \<and> same_nocase x a}"
proof (induction as rule: alternatives.induct)
  case 1
  then show ?case by simp
next
  case (2 a)
  then show ?case by (simp add: rests_lit)
next
  case (3 a b' bs)
  then show ?case by (auto simp: rests_Alt rests_lit)
qed

lemma tolower_dot: "tolower x = CHR ''.'' \<longleftrightarrow> x = CHR ''.''"
  by (cases x) auto

lemma regex_match_rests: "regex_match r s \<longleftrightarrow> [] \<in> rests r (False, s)"
  by (force simp: regex_match_def rests_def list_ex_iff)

lemma nil_in_rests_Seq:
  assumes "\<And>b t. ([] \<in> rests s (b, t)) = G t"
  shows "([] \<in> rests (Seq r s) p) = (\<exists>t\<in>rests r p. G t)"
proof -
  have "rests (Seq r s) p = (\<Union>q\<in>set (rx_run r p). rests s q)"
    by (auto simp: rests_def)
  then have "([] \<in> rests (Seq r s) p) = (\<exists>q\<in>set (rx_run r p). [] \<in> rests s (fst q, snd q))"
    by simp
  also have "\<dots> = (\<exists>q\<in>set (rx_run r p). G (snd q))"
    by (simp only: assms)
  also have "\<dots> = (\<exists>t\<in>rests r p. G t)"
    by (simp add: rests_def)
  finally show ?thesis .
qed

lemma regex_match_filter:
  assumes "as \<noteq> []"
  shows "regex_match (Seq Bol (Seq (Star Any) (Seq (Chr CHR ''.'') (Seq (alt_of (map lit as)) (Seq Eol Eps))))) name
     \<longleftrightarrow> (\<exists>pre ext. name = pre @ ''.'' @ ext \<and> (\<forall>c\<in>set pre. \<not> line_terminator c)
                    \<and> (\<exists>a\<in>set as. same_nocase ext a))"
proof -
  let ?A = "alt_of (map lit as)"
  have E: "([] \<in> rests (Seq Eol Eps) (b, t)) = (t = [])" for b t
    by (subst nil_in_rests_Seq [where G = "\<lambda>t. t = []"]) auto
  have A: "([] \<in> rests (Seq ?A (Seq Eol Eps)) (b, t)) = (\<exists>a\<in>set as. same_nocase t a)" for b t
    by (subst nil_in_rests_Seq [where G = "\<lambda>t. t = []"])
       (simp_all add: E rests_alt_of [OF assms])
  have D: "([] \<in> rests (Seq (Chr CHR ''.'') (Seq ?A (Seq Eol Eps))) (b, t))
         = (\<exists>ext. t = ''.'' @ ext \<and> (\<exists>a\<in>set as. same_nocase ext a))" for b t
    by (subst nil_in_rests_Seq [where G = "\<lambda>t. \<exists>a\<in>set as. same_nocase t a"])
       (simp add: A, auto simp add: rests_Chr tolower_dot)
  have S: "([] \<in> rests (Seq (Star Any) (Seq (Chr CHR ''.'') (Seq ?A (Seq Eol Eps)))) (b, t))
         = (\<exists>pre ext. t = pre @ ''.'' @ ext \<and> (\<forall>c\<in>set pre. \<not> line_terminator c)
                    \<and> (\<exists>a\<in>set as. same_nocase ext a))" for b t
    by (subst nil_in_rests_Seq [where G = "\<lambda>t. \<exists>ext. t = ''.'' @ ext \<and> (\<exists>a\<in>set as. same_nocase ext a)"])
       (simp add: D, simp add: rests_Star_Any, blast)
  show ?thesis
    unfolding regex_match_rests
    by (subst nil_in_rests_Seq [where G = "\<lambda>t. \<exists>pre ext. t = pre @ ''.'' @ ext \<and> (\<forall>c\<in>set pre. \<not> line_terminator c)
                    \<and> (\<exists>a\<in>set as. same_nocase ext a)"])
       (simp add: S, simp)
qed

lemma exec_shouldProcessFile_empty: "exec env (shouldProcessFile env name []) w = (Normal True, w)"
  by (simp add: shouldProcessFile_def)

lemma exec_shouldProcessFile_parsed:
  assumes "f \<noteq> []" "rx_parse (''^.*'' @ [backslash] @ ''.('' @ f @ '')$'') = Parsed re"
  shows "exec env (shouldProcessFile env name f) w =
           (Normal (regex_match re name),
            if regex_match re name then w
            else emit (Logged WARN (''File MisMatch: '' @ name @ '' does not match filter: '' @ f)) w)"
  using assms by (simp add: shouldProcessFile_def std_regex_def Let_def)

lemma rx_parse_txt_md:
  "rx_parse (''^.*'' @ [backslash] @ ''.('' @ ''txt|md'' @ '')$'') =
     Parsed (Seq Bol (Seq (Star Any) (Seq (Chr CHR ''.'')
       (Seq (alt_of (map lit [''txt'', ''md''])) (Seq Eol Eps)))))"
  using rx_parse_filter [of "[''txt'', ''md'']"] by (simp add: ordinary_def backslash_def)

lemma rx_parse_txt:
  "rx_parse (''^.*'' @ [backslash] @ ''.('' @ ''txt'' @ '')$'') =
     Parsed (Seq Bol (Seq (Star Any) (Seq (Chr CHR ''.'')
       (Seq (alt_of (map lit [''txt''])) (Seq Eol Eps)))))"
  using rx_parse_filter [of "[''txt'']"] by (simp add: ordinary_def backslash_def)

text \<open>
  C5, as amended. An empty filter accepts every filename. A filter made of alternatives
  of ordinary characters accepts exactly the filenames that end with a dot and one of the
  alternatives, letter case apart, and have no line terminator before that dot: the
  \<open>.\<close> of the pattern \<open>^.*\<close> that the code puts in front does not match one. The filter
  \<open>txt|md\<close> accepts \<open>a.txt\<close> and \<open>B.MD\<close> and rejects \<open>a.txt.bak\<close> and \<open>a.csv\<close>.
\<close>

theorem shouldProcessFile_extension_filter:
  "exec env (shouldProcessFile env name []) w = (Normal True, w)
   \<and> (as \<noteq> [] \<and> alternatives as \<noteq> [] \<and> (\<forall>a\<in>set as. \<forall>c\<in>set a. ordinary c) \<longrightarrow>
        fst (exec env (shouldProcessFile env name (alternatives as)) w) =
          Normal (\<exists>pre ext. name = pre @ ''.'' @ ext \<and> (\<forall>c\<in>set pre. \<not> line_terminator c)
                           \<and> (\<exists>a\<in>set as. same_nocase ext a)))
   \<and> fst (exec env (shouldProcessFile env ''a.txt'' ''txt|md'') w) = Normal True
   \<and> fst (exec env (shouldProcessFile env ''B.MD'' ''txt|md'') w) = Normal True
   \<and> fst (exec env (shouldProcessFile env ''a.txt.bak'' ''txt|md'') w) = Normal False
   \<and> fst (exec env (shouldProcessFile env ''a.csv'' ''txt|md'') w) = Normal False"
proof -
  have general: "fst (exec env (shouldProcessFile env name (alternatives as)) w) =
          Normal (\<exists>pre ext. name = pre @ ''.'' @ ext \<and> (\<forall>c\<in>set pre. \<not> line_terminator c)
                           \<and> (\<exists>a\<in>set as. same_nocase ext a))"
    if "as \<noteq> []" "alternatives as \<noteq> []" "\<forall>a\<in>set as. \<forall>c\<in>set a. ordinary c"
    using that
    by (simp add: exec_shouldProcessFile_parsed [OF that(2) rx_parse_filter [OF that(1) that(3)]]
        regex_match_filter [OF that(1)])
  have examples:
    "fst (exec env (shouldProcessFile env ''a.txt'' ''txt|md'') w) = Normal True"
    "fst (exec env (shouldProcessFile env ''B.MD'' ''txt|md'') w) = Normal True"
    "fst (exec env (shouldProcessFile env ''a.txt.bak'' ''txt|md'') w) = Normal False"
    "fst (exec env (shouldProcessFile env ''a.csv'' ''txt|md'') w) = Normal False"
    by (simp_all add: exec_shouldProcessFile_parsed [OF _ rx_parse_txt_md] regex_match_def
        lit_def line_terminator_def)
  from general examples show ?thesis
    by (simp add: exec_shouldProcessFile_empty)
qed

theorem shouldProcessFile_extension_filter_witness:
  "[''txt'', ''md''] \<noteq> [] \<and> alternatives [''txt'', ''md''] \<noteq> []
   \<and> fst (exec ex_env (shouldProcessFile ex_env ''notes.Md'' (alternatives [''txt'', ''md''])) ex_world)
       = Normal True
   \<and> ''notes.Md'' = ''notes'' @ ''.'' @ ''Md'' \<and> same_nocase ''Md'' ''md''"
proof -
  have "\<exists>pre ext. ''notes.Md'' = pre @ ''.'' @ ext \<and> (\<forall>c\<in>set pre. \<not> line_terminator c)
                           \<and> (\<exists>a\<in>set [''txt'', ''md'']. same_nocase ext a)"
    by (rule exI [of _ "''notes''"], rule exI [of _ "''Md''"])
       (simp add: line_terminator_def same_nocase_def)
  with shouldProcessFile_extension_filter [of ex_env "''notes.Md''" ex_world "[''txt'', ''md'']"]
  show ?thesis
    by (simp add: ordinary_def backslash_def same_nocase_def)
qed

text \<open>
  The claim as stated fails where a line terminator comes before the extension: the
  filename below ends with \<open>.txt\<close>, and the filter \<open>txt\<close> rejects it.
\<close>

theorem shouldProcessFile_line_terminator_counterexample:
  "fst (exec ex_env (shouldProcessFile ex_env (''a'' @ [CHR 0x0A] @ ''.txt'') ''txt'') ex_world)
     = Normal False"
  by (simp add: exec_shouldProcessFile_parsed [OF _ rx_parse_txt] regex_match_def
      lit_def line_terminator_def)

subsection \<open>A pool with one thread\<close>

lemma run_schedule_Nil [simp]: "run_schedule env [] pl = pl"
  and run_schedule_Cons [simp]:
    "run_schedule env (i # sch) pl = run_schedule env sch (pool_step env i pl)"
  and run_schedule_append:
    "run_schedule env (sch @ sch') pl = run_schedule env sch' (run_schedule env sch pl)"
  by (simp_all add: run_schedule_def)

lemma pool_step_single:
  assumes "thread_free P"
  shows "\<exists>P' w'. pool_step env i \<lparr>threads = [P], shared = w\<rparr> = \<lparr>threads = [P'], shared = w'\<rparr>
                \<and> thread_free P' \<and> exec env P' w' = exec env P w"
  using assms by (cases P) (auto simp: pool_step_def)

lemma run_schedule_single:
  assumes "thread_free P"
  shows "\<exists>P' w'. run_schedule env sch \<lparr>threads = [P], shared = w\<rparr> = \<lparr>threads = [P'], shared = w'\<rparr>
                \<and> thread_free P' \<and> exec env P' w' = exec env P w"
  using assms
proof (induction sch arbitrary: P w)
  case Nil
  then show ?case by simp
next
  case (Cons i sch)
  from pool_step_single [OF Cons.prems, of env i w]
  obtain P1 w1 where 1: "pool_step env i \<lparr>threads = [P], shared = w\<rparr> = \<lparr>threads = [P1], shared = w1\<rparr>"
    "thread_free P1" "exec env P1 w1 = exec env P w" by blast
  from Cons.IH [OF 1(2), of w1] 1(1,3) show ?case by auto
qed

lemma exec_ended: "ended P \<Longrightarrow> exec env P w = (case P of Return x \<Rightarrow> (Normal x, w) | Throw e \<Rightarrow> (Raised e, w))"
  by (cases P) auto

lemma single_thread_run:
  assumes "thread_free main" "complete (run_schedule env sch (start main w))"
  shows "(main_result (run_schedule env sch (start main w)), shared (run_schedule env sch (start main w)))
           = exec env main w"
proof -
  from run_schedule_single [OF assms(1), of env sch w]
  obtain P' w' where 1: "run_schedule env sch (start main w) = \<lparr>threads = [P'], shared = w'\<rparr>"
    "exec env P' w' = exec env main w" by (auto simp: start_def)
  from assms(2) 1(1) have "ended P'" by (simp add: complete_def)
  then show ?thesis using 1 by (cases P') (auto simp: main_result_def)
qed

lemma single_thread_completes:
  "thread_free P \<Longrightarrow> \<exists>sch. complete (run_schedule env sch \<lparr>threads = [P], shared = w\<rparr>)"
proof (induction P arbitrary: w)
  case (Return x)
  show ?case by (rule exI [of _ "[]"]) (simp add: complete_def)
next
  case (Throw e)
  show ?case by (rule exI [of _ "[]"]) (simp add: complete_def)
next
  case (Log l m k)
  then obtain sch where "complete (run_schedule env sch \<lparr>threads = [k], shared = emit (Logged l m) w\<rparr>)"
    by fastforce
  then show ?case by (intro exI [of _ "0 # sch"]) (simp add: pool_step_def)
next
  case (Open_in p k)
  then obtain sch where "complete (run_schedule env sch \<lparr>threads = [k (files w (inode_of env p))], shared = emit (Opened_in p) w\<rparr>)"
    by fastforce
  then show ?case by (intro exI [of _ "0 # sch"]) (simp add: pool_step_def)
next
  case (Open_out p k)
  then obtain sch where "complete (run_schedule env sch \<lparr>threads = [k (writable env p)], shared = open_out env p w\<rparr>)"
    by fastforce
  then show ?case by (intro exI [of _ "0 # sch"]) (simp add: pool_step_def)
next
  case (Write p d k)
  then obtain sch where "complete (run_schedule env sch \<lparr>threads = [k], shared = write_out env p d w\<rparr>)"
    by fastforce
  then show ?case by (intro exI [of _ "0 # sch"]) (simp add: pool_step_def)
qed simp_all

subsection \<open>Safety under every schedule\<close>

lemma always_mono: "always A P \<Longrightarrow> (\<And>a. A a \<Longrightarrow> B a) \<Longrightarrow> (\<And>e. B (Raise e) \<Longrightarrow> A (Raise e)) \<Longrightarrow> always B P"
  by (induction P) auto

lemma always_bind: "always A m \<Longrightarrow> (\<And>x. always A (f x)) \<Longrightarrow> always A (bind m f)"
  by (induction m) auto

lemma always_try_catch:
  "always (\<lambda>a. A a \<or> (\<exists>e. a = Raise e)) m \<Longrightarrow> (\<And>e. always A (h e)) \<Longrightarrow> always A (try_catch m h)"
  by (induction m) auto

lemma always_exec:
  "always A P \<Longrightarrow> exec env P w = (r, w') \<Longrightarrow>
   \<exists>evs. trace w' = trace w @ evs \<and> (\<forall>e\<in>set evs. A (Act e))
         \<and> (\<forall>e. r = Raised e \<longrightarrow> A (Raise e))"
proof (induction P arbitrary: w)
  case (Log l m k)
  from Log.IH [of "emit (Logged l m) w"] Log.prems
  obtain evs where "trace w' = (trace w @ [Logged l m]) @ evs" "\<forall>e\<in>set evs. A (Act e)"
    "\<forall>e. r = Raised e \<longrightarrow> A (Raise e)" by auto
  with Log.prems show ?case by (intro exI [of _ "Logged l m # evs"]) simp
next
  case (Open_in p k)
  from Open_in.IH [of "k (files w (inode_of env p))" "emit (Opened_in p) w"] Open_in.prems
  obtain evs where "trace w' = (trace w @ [Opened_in p]) @ evs" "\<forall>e\<in>set evs. A (Act e)"
    "\<forall>e. r = Raised e \<longrightarrow> A (Raise e)" by auto
  with Open_in.prems show ?case by (intro exI [of _ "Opened_in p # evs"]) simp
next
  case (Open_out p k)
  from Open_out.IH [of "k (writable env p)" "open_out env p w"] Open_out.prems
  obtain evs where "trace w' = (trace w @ [Opened_out p]) @ evs" "\<forall>e\<in>set evs. A (Act e)"
    "\<forall>e. r = Raised e \<longrightarrow> A (Raise e)" by auto
  with Open_out.prems show ?case by (intro exI [of _ "Opened_out p # evs"]) simp
next
  case (Write p d k)
  from Write.IH [of "write_out env p d w"] Write.prems
  obtain evs where "trace w' = (trace w @ [Wrote p d]) @ evs" "\<forall>e\<in>set evs. A (Act e)"
    "\<forall>e. r = Raised e \<longrightarrow> A (Raise e)" by auto
  with Write.prems show ?case by (intro exI [of _ "Wrote p d # evs"]) simp
qed auto

lemma new_events_app: "trace w' = trace w @ evs \<Longrightarrow> new_events w w' = evs"
  by (simp add: new_events_def)

text \<open>Every thread of a pool keeps satisfying \<open>always A\<close>, and so does every event.\<close>

lemma always_update:
  assumes "\<forall>P\<in>set ts. always A P" "always A Q"
  shows "\<forall>P\<in>set (ts[i := Q]). always A P"
proof
  fix P assume "P \<in> set (ts[i := Q])"
  then have "P \<in> insert Q (set ts)" using set_update_subset_insert by fastforce
  with assms show "always A P" by auto
qed

lemma always_pool_step:
  assumes spawn: "\<And>t. A (Spawn t) \<Longrightarrow> always A (task_body env t)"
    and inv: "\<forall>P\<in>set (threads pl). always A P"
  shows "(\<forall>P\<in>set (threads (pool_step env i pl)). always A P)
       \<and> (\<exists>evs. trace (shared (pool_step env i pl)) = trace (shared pl) @ evs
                \<and> (\<forall>e\<in>set evs. A (Act e)))"
proof (cases "i < length (threads pl)")
  case False
  then show ?thesis using inv by (simp add: pool_step_def)
next
  case True
  then have P: "always A (threads pl ! i)" using inv by simp
  show ?thesis
  proof (cases "threads pl ! i")
    case (Return x)
    then show ?thesis using inv True by (simp add: pool_step_def)
  next
    case (Throw e)
    then show ?thesis using inv True by (simp add: pool_step_def)
  next
    case (Log l m k)
    have step: "pool_step env i pl =
        \<lparr>threads = (threads pl)[i := k], shared = emit (Logged l m) (shared pl)\<rparr>"
      using True Log by (simp add: pool_step_def)
    from P Log have "always A k" "A (Act (Logged l m))" by simp_all
    then show ?thesis unfolding step using always_update [OF inv] by simp
  next
    case (Open_in p k)
    have step: "pool_step env i pl =
        \<lparr>threads = (threads pl)[i := k (files (shared pl) (inode_of env p))],
         shared = emit (Opened_in p) (shared pl)\<rparr>"
      using True Open_in by (simp add: pool_step_def)
    from P Open_in have "always A (k (files (shared pl) (inode_of env p)))" "A (Act (Opened_in p))"
      by simp_all
    then show ?thesis unfolding step using always_update [OF inv] by simp
  next
    case (Open_out p k)
    have step: "pool_step env i pl =
        \<lparr>threads = (threads pl)[i := k (writable env p)], shared = open_out env p (shared pl)\<rparr>"
      using True Open_out by (simp add: pool_step_def)
    from P Open_out have "always A (k (writable env p))" "A (Act (Opened_out p))" by simp_all
    then show ?thesis unfolding step using always_update [OF inv] by simp
  next
    case (Write p d k)
    have step: "pool_step env i pl =
        \<lparr>threads = (threads pl)[i := k], shared = write_out env p d (shared pl)\<rparr>"
      using True Write by (simp add: pool_step_def)
    from P Write have "always A k" "A (Act (Wrote p d))" by simp_all
    then show ?thesis unfolding step using always_update [OF inv] by simp
  next
    case (Async t k)
    have step: "pool_step env i pl =
        \<lparr>threads = (threads pl)[i := k (length (threads pl))] @ [task_body env t],
         shared = shared pl\<rparr>"
      using True Async by (simp add: pool_step_def)
    from P Async have "always A (k (length (threads pl)))" "A (Spawn t)" by simp_all
    then show ?thesis unfolding step using always_update [OF inv] spawn [of t] by simp
  next
    case (Get h k)
    show ?thesis
    proof (cases "h < length (threads pl)")
      case False
      then show ?thesis using inv True Get by (simp add: pool_step_def)
    next
      case h: True
      then have Q: "always A (threads pl ! h)" using inv by simp
      show ?thesis
      proof (cases "threads pl ! h")
        case (Return x)
        have step: "pool_step env i pl = \<lparr>threads = (threads pl)[i := k None], shared = shared pl\<rparr>"
          using True Get h Return by (simp add: pool_step_def)
        from P Get have "always A (k None)" by simp
        then show ?thesis unfolding step using always_update [OF inv] by simp
      next
        case (Throw e)
        have step: "pool_step env i pl = \<lparr>threads = (threads pl)[i := k (Some e)], shared = shared pl\<rparr>"
          using True Get h Throw by (simp add: pool_step_def)
        from P Get Q Throw have "always A (k (Some e))" by simp
        then show ?thesis unfolding step using always_update [OF inv] by simp
      qed (use inv True Get h in \<open>simp_all add: pool_step_def\<close>)
    qed
  qed
qed

lemma always_run_schedule:
  assumes spawn: "\<And>t. A (Spawn t) \<Longrightarrow> always A (task_body env t)"
    and inv: "\<forall>P\<in>set (threads pl). always A P"
  shows "(\<forall>P\<in>set (threads (run_schedule env sch pl)). always A P)
       \<and> (\<exists>evs. trace (shared (run_schedule env sch pl)) = trace (shared pl) @ evs
                \<and> (\<forall>e\<in>set evs. A (Act e)))"
  using inv
proof (induction sch arbitrary: pl)
  case Nil
  then show ?case by simp
next
  case (Cons i sch)
  from always_pool_step [OF spawn Cons.prems, of i]
  obtain evs1 where 1: "\<forall>P\<in>set (threads (pool_step env i pl)). always A P"
    "trace (shared (pool_step env i pl)) = trace (shared pl) @ evs1" "\<forall>e\<in>set evs1. A (Act e)"
    by blast
  from Cons.IH [OF 1(1)]
  obtain evs2 where 2: "\<forall>P\<in>set (threads (run_schedule env sch (pool_step env i pl))). always A P"
    "trace (shared (run_schedule env sch (pool_step env i pl))) = trace (shared (pool_step env i pl)) @ evs2"
    "\<forall>e\<in>set evs2. A (Act e)"
    by blast
  show ?case using 1 2 by (auto intro!: exI [of _ "evs1 @ evs2"])
qed


subsection \<open>What the member functions can do\<close>

lemma always_mapEncodingName:
  assumes "\<And>l m. l \<noteq> ERROR \<or> take 1 m \<noteq> ''A'' \<Longrightarrow> A (Act (Logged l m))"
  shows "always A (mapEncodingName x)"
  using assms by (simp add: mapEncodingName_def Let_def)

lemma always_shouldProcessFile:
  assumes "\<And>l m. l \<noteq> ERROR \<or> take 1 m \<noteq> ''A'' \<Longrightarrow> A (Act (Logged l m))"
    and "ff \<noteq> [] \<Longrightarrow> (\<exists>msg. std_regex env (''^.*'' @ [backslash] @ ''.('' @ ff @ '')$'') = Inl msg)
           \<Longrightarrow> A (Raise (Runtime_error (''Invalid regex filter: '' @ ff)))"
  shows "always A (shouldProcessFile env n ff)"
  using assms by (auto simp add: shouldProcessFile_def Let_def split: sum.splits)

lemma always_detectEncoding:
  assumes "\<And>l m. l \<noteq> ERROR \<or> take 1 m \<noteq> ''A'' \<Longrightarrow> A (Act (Logged l m))"
    and "\<And>e. A (Raise e)"
  shows "always A (detectEncoding env d sf)"
  using assms
  by (simp add: detectEncoding_def Let_def split: uchardet_result.splits sum.splits option.splits)

lemma always_convertEncoding:
  assumes "\<And>l m. l \<noteq> ERROR \<or> take 1 m \<noteq> ''A'' \<Longrightarrow> A (Act (Logged l m))"
    and "\<And>e. A (Raise e)"
  shows "always A (convertEncoding env d f t)"
  using assms by (simp add: convertEncoding_def Let_def split: sum.splits)

lemma always_convertFile:
  assumes logs: "\<And>l m. l \<noteq> ERROR \<or> take 1 m \<noteq> ''A'' \<Longrightarrow> A (Act (Logged l m))"
    and raise: "\<And>e. A (Raise e)"
    and "A (Act (Opened_in p))" "A (Act (Opened_out p))" "\<And>d. A (Act (Wrote p d))"
  shows "always A (convertFile env p to sf)"
  unfolding convertFile_def
  using assms
  by (auto intro!: always_bind always_try_catch always_detectEncoding always_convertEncoding
      always_mapEncodingName split: option.splits)

lemma always_bind_returns:
  "always A m \<Longrightarrow> (\<And>x. x \<in> returns m \<Longrightarrow> always A (f x)) \<Longrightarrow> always A (bind m f)"
  by (induction m) auto

lemma returns_shouldProcessFile: "returns (shouldProcessFile env n ff) \<subseteq> {accepted env n ff}"
  by (auto simp: shouldProcessFile_def accepted_def Let_def split: sum.splits)

lemma always_convertFile_bad_filter:
  assumes logs: "\<And>l m. l \<noteq> ERROR \<or> take 1 m \<noteq> ''A'' \<Longrightarrow> A (Act (Logged l m))"
    and raise: "\<And>e. A (Raise e)"
    and "A (Act (Opened_in p))"
    and bad: "sf \<noteq> []" "malformed env (''^('' @ sf @ '')$'')"
  shows "always A (convertFile env p to sf)"
proof -
  have D: "always A (bind (detectEncoding env d sf) f)" if "always A (f ''UNKNOWN'')" for d f
    using that logs raise bad
    by (simp add: detectEncoding_def malformed_def Let_def
        split: uchardet_result.splits sum.splits option.splits)
  show ?thesis
    unfolding convertFile_def using assms(1-3) by (auto intro!: D split: option.splits)
qed

lemma always_task_body:
  assumes logs: "\<And>l m. l \<noteq> ERROR \<or> take 1 m \<noteq> ''A'' \<Longrightarrow> A (Act (Logged l m))"
    and "A (Act (Opened_in (t_path t)))"
    and "(A (Act (Opened_out (t_path t))) \<and> (\<forall>d. A (Act (Wrote (t_path t) d))))
         \<or> (t_filter t \<noteq> [] \<and> malformed env (''^('' @ t_filter t @ '')$''))"
  shows "always A (task_body env t)"
proof -
  let ?A = "\<lambda>a. A a \<or> (\<exists>e. a = Raise e)"
  have "always ?A (convertFile env (t_path t) (t_to t) (t_filter t))"
    using assms(3)
  proof
    assume "A (Act (Opened_out (t_path t))) \<and> (\<forall>d. A (Act (Wrote (t_path t) d)))"
    then show ?thesis using logs assms(2) by (intro always_convertFile) auto
  next
    assume "t_filter t \<noteq> [] \<and> malformed env (''^('' @ t_filter t @ '')$'')"
    then show ?thesis using logs assms(2) by (intro always_convertFile_bad_filter) auto
  qed
  then show ?thesis
    unfolding task_body_def using logs by (intro always_try_catch) auto
qed

lemma always_get_all:
  assumes "\<And>e. A (Raise e) \<Longrightarrow> A (Act (Logged ERROR (''Asynchronous task failed: '' @ what e)))"
  shows "always A (get_all futures)"
  using assms by (induction futures) auto

lemma shouldProcessFile_shape:
  "(accepted env n ff \<and> shouldProcessFile env n ff = Return True)
   \<or> (\<not> accepted env n ff \<and> (\<exists>m. shouldProcessFile env n ff = Log WARN m (Return False)))
   \<or> ((\<forall>n'. \<not> accepted env n' ff) \<and> ff \<noteq> []
       \<and> malformed env (''^.*'' @ [backslash] @ ''.('' @ ff @ '')$'')
       \<and> (\<exists>m. shouldProcessFile env n ff
                 = Log ERROR m (Throw (Runtime_error (''Invalid regex filter: '' @ ff)))))"
  by (auto simp: shouldProcessFile_def accepted_def malformed_def Let_def split: sum.splits)

lemma mapEncodingName_shape:
  "mapEncodingName to = Return (normalize_spec to)
   \<or> (\<exists>m. mapEncodingName to = Log WARN m (Return (normalize_spec to)))"
  by (simp add: mapEncodingName_def normalize_spec_def alias_table_def Let_def)

lemma bind_destroy [simp]: "bind (destroy futures k) f = destroy futures (bind k f)"
  by (induction futures) auto

lemma always_destroy [simp]: "always A (destroy futures k) = always A k"
  by (induction futures) auto

lemma always_unwinding: "always A m \<Longrightarrow> always A (unwinding futures m)"
  unfolding unwinding_def by (induction m) auto

lemma returns_destroy [simp]: "returns (destroy futures k) = returns k"
  by (induction futures) auto

lemma returns_unwinding [simp]: "returns (unwinding futures m) = returns m"
  unfolding unwinding_def by (induction m) auto

lemma unwinding_simps [simp]:
  "unwinding futures (Return x) = Return x"
  "unwinding futures (Throw e) = destroy futures (Throw e)"
  "unwinding futures (Log l m k) = Log l m (unwinding futures k)"
  by (simp_all add: unwinding_def)

lemma unwinding_Nil [simp]: "unwinding [] m = m"
  unfolding unwinding_def by (induction m) auto

lemma always_convert_entries:
  assumes logs: "\<And>l m. l \<noteq> ERROR \<or> take 1 m \<noteq> ''A'' \<Longrightarrow> A (Act (Logged l m))"
    and bad: "ff \<noteq> [] \<Longrightarrow> malformed env (''^.*'' @ [backslash] @ ''.('' @ ff @ '')$'')
           \<Longrightarrow> A (Raise (Runtime_error (''Invalid regex filter: '' @ ff)))"
    and walk: "\<And>msg. walk_error es = Some msg \<Longrightarrow> A (Raise (Filesystem_error msg))"
    and spawn: "\<And>p. (p, True) \<in> set (entries es) \<Longrightarrow> accepted env (filename p) ff
           \<Longrightarrow> A (Spawn \<lparr>t_path = p, t_to = to, t_filter = sf\<rparr>)"
  shows "always A (convert_entries env es to sf ff futures)"
  using walk spawn
proof (induction es arbitrary: futures)
  case End
  then show ?case by simp
next
  case (Iterator_error msg)
  then show ?case by simp
next
  case (Entry p status es)
  show ?case
  proof (cases status)
    case (Inl msg)
    then show ?thesis using Entry.prems by simp
  next
    case (Inr regular)
    have IH: "always A (convert_entries env es to sf ff futs)" for futs
      using Entry.IH Entry.prems Inr by auto
    have S: "always A (unwinding futures (shouldProcessFile env (filename p) ff))"
      using logs bad
      by (intro always_unwinding always_shouldProcessFile) (auto simp: malformed_def)
    show ?thesis
    proof (cases regular)
      case True
      have "always A (bind (unwinding futures (shouldProcessFile env (filename p) ff))
            (\<lambda>process.
              if process then
                Async \<lparr>t_path = p, t_to = to, t_filter = sf\<rparr>
                  (\<lambda>future. convert_entries env es to sf ff (futures @ [future]))
              else convert_entries env es to sf ff futures))"
      proof (rule always_bind_returns [OF S])
        fix x assume "x \<in> returns (unwinding futures (shouldProcessFile env (filename p) ff))"
        then have "x = accepted env (filename p) ff"
          using returns_shouldProcessFile by fastforce
        then show "always A (if x then Async \<lparr>t_path = p, t_to = to, t_filter = sf\<rparr>
                (\<lambda>future. convert_entries env es to sf ff (futures @ [future]))
            else convert_entries env es to sf ff futures)"
          using IH Entry.prems(2) [of p] Inr True by simp
      qed
      then show ?thesis using Inr True by simp
    next
      case False
      then show ?thesis using Inr IH logs by simp
    qed
  qed
qed

lemma always_convert_single_entries:
  assumes logs: "\<And>l m. l \<noteq> ERROR \<or> take 1 m \<noteq> ''A'' \<Longrightarrow> A (Act (Logged l m))"
    and bad: "ff \<noteq> [] \<Longrightarrow> malformed env (''^.*'' @ [backslash] @ ''.('' @ ff @ '')$'')
           \<Longrightarrow> A (Raise (Runtime_error (''Invalid regex filter: '' @ ff)))"
    and walk: "\<And>msg. walk_error es = Some msg \<Longrightarrow> A (Raise (Filesystem_error msg))"
    and job: "\<And>p. (p, True) \<in> set (entries es) \<Longrightarrow> accepted env (filename p) ff
           \<Longrightarrow> always A (task_body env \<lparr>t_path = p, t_to = to, t_filter = sf\<rparr>)"
  shows "always A (convert_single_entries env es to sf ff)"
  using walk job
proof (induction es)
  case End
  then show ?case by simp
next
  case (Iterator_error msg)
  then show ?case by simp
next
  case (Entry p status es)
  show ?case
  proof (cases status)
    case (Inl msg)
    then show ?thesis using Entry.prems by simp
  next
    case (Inr regular)
    have IH: "always A (convert_single_entries env es to sf ff)"
      using Entry.IH Entry.prems Inr by auto
    have S: "always A (shouldProcessFile env (filename p) ff)"
      using logs bad by (intro always_shouldProcessFile) (auto simp: malformed_def)
    show ?thesis
    proof (cases regular)
      case True
      have "always A (bind (shouldProcessFile env (filename p) ff) (\<lambda>process.
            if process then
              bind (task_body env \<lparr>t_path = p, t_to = to, t_filter = sf\<rparr>)
                (\<lambda>_. convert_single_entries env es to sf ff)
            else convert_single_entries env es to sf ff))"
      proof (rule always_bind_returns [OF S])
        fix x assume "x \<in> returns (shouldProcessFile env (filename p) ff)"
        then have "x = accepted env (filename p) ff"
          using returns_shouldProcessFile by fastforce
        then show "always A (if x then bind (task_body env \<lparr>t_path = p, t_to = to, t_filter = sf\<rparr>)
                (\<lambda>_. convert_single_entries env es to sf ff)
            else convert_single_entries env es to sf ff)"
          using IH Entry.prems(2) [of p] Inr True by (auto intro!: always_bind)
      qed
      then show ?thesis using Inr True by (simp add: task_body_def cong: if_cong)
    next
      case False
      then show ?thesis using Inr IH logs by simp
    qed
  qed
qed

subsection \<open>What the two schedulers can do\<close>

lemma returns_mapEncodingName: "returns (mapEncodingName x) = {normalize_spec x}"
  by (simp add: mapEncodingName_def normalize_spec_def alias_table_def Let_def)

lemma always_convert:
  assumes logs: "\<And>l m. l \<noteq> ERROR \<or> take 1 m \<noteq> ''A'' \<Longrightarrow> A (Act (Logged l m))"
    and unsupported: "to = [] \<Longrightarrow> A (Raise (Runtime_error (''Unsupported target encoding: '' @ to)))"
    and invalid: "to \<noteq> [] \<Longrightarrow> is_directory env path = Inr False
           \<Longrightarrow> is_regular_file env path = Inr False
           \<Longrightarrow> A (Raise (Runtime_error (''Invalid path: '' @ path)))"
    and fs: "\<And>msg. to \<noteq> [] \<Longrightarrow> filesystem_failure env path = Some msg
           \<Longrightarrow> A (Raise (Filesystem_error msg))"
    and bad: "to \<noteq> [] \<Longrightarrow> ff \<noteq> [] \<Longrightarrow> malformed env (''^.*'' @ [backslash] @ ''.('' @ ff @ '')$'')
           \<Longrightarrow> A (Raise (Runtime_error (''Invalid regex filter: '' @ ff)))"
    and spawn: "\<And>p. to \<noteq> [] \<Longrightarrow> is_directory env path = Inr True
           \<Longrightarrow> (p, True) \<in> set (entries (recursive_directory_iterator env path))
           \<Longrightarrow> accepted env (filename p) ff
           \<Longrightarrow> A (Spawn \<lparr>t_path = p, t_to = normalize_spec to, t_filter = sf\<rparr>)"
    and single: "to \<noteq> [] \<Longrightarrow> is_directory env path = Inr False
           \<Longrightarrow> is_regular_file env path = Inr True
           \<Longrightarrow> accepted env (filename path) ff
           \<Longrightarrow> always A (task_body env \<lparr>t_path = path, t_to = normalize_spec to, t_filter = sf\<rparr>)"
    and join: "\<And>e. A (Raise e) \<Longrightarrow> A (Act (Logged ERROR (''Asynchronous task failed: '' @ what e)))"
  shows "always A (convert env path to sf ff)"
proof (cases "to = []")
  case True
  then show ?thesis using logs unsupported by (simp add: convert_def mapEncodingName_def)
next
  case False
  then have nz: "normalize_spec to \<noteq> []" by (simp add: normalize_spec_empty)
  have M: "always A (mapEncodingName to)" using logs by (rule always_mapEncodingName)
  have G: "always A (get_all futs)" for futs using join by (rule always_get_all)
  have S: "always A (shouldProcessFile env n ff)" for n
    using logs bad False by (intro always_shouldProcessFile) (auto simp: malformed_def)
  have body: "always A
     (case is_directory env path of
         Inl msg \<Rightarrow> Throw (Filesystem_error msg)
       | Inr directory \<Rightarrow>
           if directory then
             Log INFO (''Processing directory: '' @ path)
               (convert_entries env (recursive_directory_iterator env path) (normalize_spec to) sf ff [])
           else
             (case is_regular_file env path of
                Inl msg \<Rightarrow> Throw (Filesystem_error msg)
              | Inr regular \<Rightarrow>
                  if regular then
                    bind (shouldProcessFile env (filename path) ff)
                      (\<lambda>process.
                        if process then
                          Log INFO (''Processing single file: '' @ path)
                            (bind
                               (try_catch (convertFile env path (normalize_spec to) sf)
                                  (\<lambda>e. Log ERROR (''Error converting '' @ path @ '': '' @ what e)
                                         (Return ())))
                               (\<lambda>_. Return []))
                        else
                          Log WARN (''File does not match filter and will be skipped: '' @ path)
                            (Return []))
                  else
                    Log ERROR (''Invalid path: '' @ path)
                      (Throw (Runtime_error (''Invalid path: '' @ path)))))"
  proof (cases "is_directory env path")
    case (Inl msg)
    then show ?thesis using fs [OF False, of msg] by (simp add: filesystem_failure_def)
  next
    case (Inr directory)
    show ?thesis
    proof (cases directory)
      case True
      have "always A (convert_entries env (recursive_directory_iterator env path)
               (normalize_spec to) sf ff [])"
        using logs bad False spawn fs [OF False] Inr True
        by (intro always_convert_entries) (auto simp: filesystem_failure_def)
      then show ?thesis using Inr True logs by simp
    next
      case nd: False
      show ?thesis
      proof (cases "is_regular_file env path")
        case (Inl msg)
        then show ?thesis using fs [OF False, of msg] Inr nd
          by (simp add: filesystem_failure_def)
      next
        case r: (Inr regular)
        show ?thesis
        proof (cases regular)
          case True
          have "always A (bind (shouldProcessFile env (filename path) ff)
                      (\<lambda>process.
                        if process then
                          Log INFO (''Processing single file: '' @ path)
                            (bind
                               (try_catch (convertFile env path (normalize_spec to) sf)
                                  (\<lambda>e. Log ERROR (''Error converting '' @ path @ '': '' @ what e)
                                         (Return ())))
                               (\<lambda>_. Return []))
                        else
                          Log WARN (''File does not match filter and will be skipped: '' @ path)
                            (Return [])))"
          proof (rule always_bind_returns [OF S])
            fix x assume "x \<in> returns (shouldProcessFile env (filename path) ff)"
            then have x: "x = accepted env (filename path) ff"
              using returns_shouldProcessFile by fastforce
            show "always A (if x then
                          Log INFO (''Processing single file: '' @ path)
                            (bind
                               (try_catch (convertFile env path (normalize_spec to) sf)
                                  (\<lambda>e. Log ERROR (''Error converting '' @ path @ '': '' @ what e)
                                         (Return ())))
                               (\<lambda>_. Return []))
                        else
                          Log WARN (''File does not match filter and will be skipped: '' @ path)
                            (Return []))"
              using x logs single [OF False] Inr nd r True
              by (auto intro!: always_bind simp: task_body_def)
          qed
          then show ?thesis using Inr nd r True by simp
        next
          case False
          then show ?thesis using Inr nd r logs invalid \<open>to \<noteq> []\<close> by simp
        qed
      qed
    qed
  qed
  show ?thesis
    unfolding convert_def
  proof (rule always_bind_returns [OF M])
    fix m assume "m \<in> returns (mapEncodingName to)"
    then have m: "m = normalize_spec to" by (simp add: returns_mapEncodingName)
    show "always A (if m = [] then
         Log ERROR (''Unsupported target encoding: '' @ to)
           (Throw (Runtime_error (''Unsupported target encoding: '' @ to)))
       else
         Log INFO (''Target Encoding Mapped: '' @ m)
           (bind
              (case is_directory env path of
         Inl msg \<Rightarrow> Throw (Filesystem_error msg)
       | Inr directory \<Rightarrow>
           if directory then
             Log INFO (''Processing directory: '' @ path)
               (convert_entries env (recursive_directory_iterator env path) m sf ff [])
           else
             (case is_regular_file env path of
                Inl msg \<Rightarrow> Throw (Filesystem_error msg)
              | Inr regular \<Rightarrow>
                  if regular then
                    bind (shouldProcessFile env (filename path) ff)
                      (\<lambda>process.
                        if process then
                          Log INFO (''Processing single file: '' @ path)
                            (bind
                               (try_catch (convertFile env path m sf)
                                  (\<lambda>e. Log ERROR (''Error converting '' @ path @ '': '' @ what e)
                                         (Return ())))
                               (\<lambda>_. Return []))
                        else
                          Log WARN (''File does not match filter and will be skipped: '' @ path)
                            (Return []))
                  else
                    Log ERROR (''Invalid path: '' @ path)
                      (Throw (Runtime_error (''Invalid path: '' @ path)))))
              get_all))"
      unfolding m using nz logs body G by (simp add: always_bind)
  qed
qed

lemma always_convert_single:
  assumes logs: "\<And>l m. l \<noteq> ERROR \<or> take 1 m \<noteq> ''A'' \<Longrightarrow> A (Act (Logged l m))"
    and unsupported: "to = [] \<Longrightarrow> A (Raise (Runtime_error (''Unsupported target encoding: '' @ to)))"
    and invalid: "to \<noteq> [] \<Longrightarrow> is_directory env path = Inr False
           \<Longrightarrow> is_regular_file env path = Inr False
           \<Longrightarrow> A (Raise (Runtime_error (''Invalid path: '' @ path)))"
    and fs: "\<And>msg. to \<noteq> [] \<Longrightarrow> filesystem_failure env path = Some msg
           \<Longrightarrow> A (Raise (Filesystem_error msg))"
    and bad: "to \<noteq> [] \<Longrightarrow> ff \<noteq> [] \<Longrightarrow> malformed env (''^.*'' @ [backslash] @ ''.('' @ ff @ '')$'')
           \<Longrightarrow> A (Raise (Runtime_error (''Invalid regex filter: '' @ ff)))"
    and job: "\<And>p. to \<noteq> [] \<Longrightarrow> is_directory env path = Inr True
           \<Longrightarrow> (p, True) \<in> set (entries (recursive_directory_iterator env path))
           \<Longrightarrow> accepted env (filename p) ff
           \<Longrightarrow> always A (task_body env \<lparr>t_path = p, t_to = normalize_spec to, t_filter = sf\<rparr>)"
    and single: "to \<noteq> [] \<Longrightarrow> is_directory env path = Inr False
           \<Longrightarrow> is_regular_file env path = Inr True
           \<Longrightarrow> accepted env (filename path) ff
           \<Longrightarrow> always A (task_body env \<lparr>t_path = path, t_to = normalize_spec to, t_filter = sf\<rparr>)"
  shows "always A (convert_single env path to sf ff)"
proof (cases "to = []")
  case True
  then show ?thesis using logs unsupported by (simp add: convert_single_def mapEncodingName_def)
next
  case False
  then have nz: "normalize_spec to \<noteq> []" by (simp add: normalize_spec_empty)
  have M: "always A (mapEncodingName to)" using logs by (rule always_mapEncodingName)
  have S: "always A (shouldProcessFile env n ff)" for n
    using logs bad False by (intro always_shouldProcessFile) (auto simp: malformed_def)
  have body: "always A
     (case is_directory env path of
         Inl msg \<Rightarrow> Throw (Filesystem_error msg)
       | Inr directory \<Rightarrow>
           if directory then
             Log INFO (''Processing directory: '' @ path)
               (convert_single_entries env (recursive_directory_iterator env path) (normalize_spec to) sf ff)
           else
             (case is_regular_file env path of
                Inl msg \<Rightarrow> Throw (Filesystem_error msg)
              | Inr regular \<Rightarrow>
                  if regular then
                    bind (shouldProcessFile env (filename path) ff)
                      (\<lambda>process.
                        if process then
                          Log INFO (''Processing single file: '' @ path)
                            (try_catch (convertFile env path (normalize_spec to) sf)
                               (\<lambda>e. Log ERROR (''Error converting '' @ path @ '': '' @ what e)
                                      (Return ())))
                        else
                          Log WARN (''File does not match filter and will be skipped: '' @ path)
                            (Return ()))
                  else
                    Log ERROR (''Invalid path: '' @ path)
                      (Throw (Runtime_error (''Invalid path: '' @ path)))))"
  proof (cases "is_directory env path")
    case (Inl msg)
    then show ?thesis using fs [OF False, of msg] by (simp add: filesystem_failure_def)
  next
    case (Inr directory)
    show ?thesis
    proof (cases directory)
      case True
      have "always A (convert_single_entries env (recursive_directory_iterator env path)
               (normalize_spec to) sf ff)"
        using logs bad False job fs [OF False] Inr True
        by (intro always_convert_single_entries) (auto simp: filesystem_failure_def)
      then show ?thesis using Inr True logs by simp
    next
      case nd: False
      show ?thesis
      proof (cases "is_regular_file env path")
        case (Inl msg)
        then show ?thesis using fs [OF False, of msg] Inr nd
          by (simp add: filesystem_failure_def)
      next
        case r: (Inr regular)
        show ?thesis
        proof (cases regular)
          case True
          have "always A (bind (shouldProcessFile env (filename path) ff)
                      (\<lambda>process.
                        if process then
                          Log INFO (''Processing single file: '' @ path)
                            (try_catch (convertFile env path (normalize_spec to) sf)
                               (\<lambda>e. Log ERROR (''Error converting '' @ path @ '': '' @ what e)
                                      (Return ())))
                        else
                          Log WARN (''File does not match filter and will be skipped: '' @ path)
                            (Return ())))"
          proof (rule always_bind_returns [OF S])
            fix x assume "x \<in> returns (shouldProcessFile env (filename path) ff)"
            then have x: "x = accepted env (filename path) ff"
              using returns_shouldProcessFile by fastforce
            show "always A (if x then
                          Log INFO (''Processing single file: '' @ path)
                            (try_catch (convertFile env path (normalize_spec to) sf)
                               (\<lambda>e. Log ERROR (''Error converting '' @ path @ '': '' @ what e)
                                      (Return ())))
                        else
                          Log WARN (''File does not match filter and will be skipped: '' @ path)
                            (Return ()))"
              using x logs single [OF False] Inr nd r True
              by (auto simp: task_body_def)
          qed
          then show ?thesis using Inr nd r True by simp
        next
          case False
          then show ?thesis using Inr nd r logs invalid \<open>to \<noteq> []\<close> by simp
        qed
      qed
    qed
  qed
  show ?thesis
    unfolding convert_single_def
  proof (rule always_bind_returns [OF M])
    fix m assume "m \<in> returns (mapEncodingName to)"
    then have m: "m = normalize_spec to" by (simp add: returns_mapEncodingName)
    show "always A (if m = [] then
         Log ERROR (''Unsupported target encoding: '' @ to)
           (Throw (Runtime_error (''Unsupported target encoding: '' @ to)))
       else
         Log INFO (''Target Encoding Mapped: '' @ m)
           (case is_directory env path of
         Inl msg \<Rightarrow> Throw (Filesystem_error msg)
       | Inr directory \<Rightarrow>
           if directory then
             Log INFO (''Processing directory: '' @ path)
               (convert_single_entries env (recursive_directory_iterator env path) m sf ff)
           else
             (case is_regular_file env path of
                Inl msg \<Rightarrow> Throw (Filesystem_error msg)
              | Inr regular \<Rightarrow>
                  if regular then
                    bind (shouldProcessFile env (filename path) ff)
                      (\<lambda>process.
                        if process then
                          Log INFO (''Processing single file: '' @ path)
                            (try_catch (convertFile env path m sf)
                               (\<lambda>e. Log ERROR (''Error converting '' @ path @ '': '' @ what e)
                                      (Return ())))
                        else
                          Log WARN (''File does not match filter and will be skipped: '' @ path)
                            (Return ()))
                  else
                    Log ERROR (''Invalid path: '' @ path)
                      (Throw (Runtime_error (''Invalid path: '' @ path))))))"
      unfolding m using nz logs body by simp
  qed
qed

subsection \<open>The result of the calling thread\<close>

lemma main_result_Raised:
  assumes "\<forall>P\<in>set (threads pl). always A P" "main_result pl = Raised e"
  shows "A (Raise e)"
proof -
  from assms(2) obtain ts where "threads pl = Throw e # ts"
    by (auto simp: main_result_def split: list.splits prog.splits)
  with assms(1) show ?thesis by simp
qed

lemma start_simps [simp]: "threads (start main w) = [main]" "shared (start main w) = w"
  by (simp_all add: start_def)

lemma exec_convert_single_empty_target:
  "exec env (convert_single env path [] sf ff) w =
     (Raised (Runtime_error ''Unsupported target encoding: ''),
      emit (Logged ERROR ''Unsupported target encoding: '') w)"
  by (simp add: convert_single_def mapEncodingName_def)

lemma convert_empty_target:
  "convert env path [] sf ff =
     Log ERROR ''Unsupported target encoding: ''
       (Throw (Runtime_error ''Unsupported target encoding: ''))"
  by (simp add: convert_def mapEncodingName_def)

text \<open>
  C10. \<open>mapEncodingName\<close> returns the empty string exactly for the empty string, so the
  abort with the unsupported-target error, in \<open>convert_single\<close> and under every schedule
  of \<open>convert\<close>, happens exactly when the requested target encoding is the empty string.
\<close>

theorem unsupported_target_abort_iff_empty:
  "(fst (exec env (mapEncodingName x) w) = Normal [] \<longleftrightarrow> x = [])
   \<and> (fst (exec env (convert_single env path to sf ff) w)
        = Raised (Runtime_error (''Unsupported target encoding: '' @ to)) \<longleftrightarrow> to = [])
   \<and> (complete (run_schedule env sch (start (convert env path to sf ff) w)) \<longrightarrow>
        (main_result (run_schedule env sch (start (convert env path to sf ff) w))
           = Raised (Runtime_error (''Unsupported target encoding: '' @ to)) \<longleftrightarrow> to = []))
   \<and> (to = [] \<longrightarrow> (\<exists>sch'. complete (run_schedule env sch' (start (convert env path to sf ff) w))))"
proof -
  let ?e = "Runtime_error (''Unsupported target encoding: '' @ to)"
  let ?A = "\<lambda>a. a \<noteq> Raise ?e"
  have task: "always ?A (task_body env t)" for t
    by (rule always_task_body) simp_all
  have 1: "fst (exec env (mapEncodingName x) w) = Normal [] \<longleftrightarrow> x = []"
    by (simp add: exec_mapEncodingName normalize_spec_empty)
  have 2: "fst (exec env (convert_single env path to sf ff) w) = Raised ?e \<longleftrightarrow> to = []"
  proof (cases "to = []")
    case True
    then show ?thesis by (simp add: exec_convert_single_empty_target)
  next
    case False
    have "always ?A (convert_single env path to sf ff)"
      using False task by (intro always_convert_single) simp_all
    from always_exec [OF this, of env w "fst (exec env (convert_single env path to sf ff) w)"
        "snd (exec env (convert_single env path to sf ff) w)"]
    show ?thesis using False by auto
  qed
  have 3: "main_result (run_schedule env sch (start (convert env path to sf ff) w)) = Raised ?e
            \<longleftrightarrow> to = []"
    if c: "complete (run_schedule env sch (start (convert env path to sf ff) w))"
  proof (cases "to = []")
    case True
    have "thread_free (convert env path to sf ff)" using True by (simp add: convert_empty_target)
    from single_thread_run [OF this c] True show ?thesis
      by (simp add: convert_empty_target prod_eq_iff)
  next
    case False
    have "always ?A (convert env path to sf ff)"
      using False task by (intro always_convert) simp_all
    then have "\<forall>P\<in>set (threads (start (convert env path to sf ff) w)). always ?A P" by simp
    from always_run_schedule [of ?A env, OF task this, of sch]
    have "\<forall>P\<in>set (threads (run_schedule env sch (start (convert env path to sf ff) w))). always ?A P"
      by blast
    from main_result_Raised [OF this] False show ?thesis by auto
  qed
  have 4: "\<exists>sch'. complete (run_schedule env sch' (start (convert env path to sf ff) w))" if "to = []"
    using single_thread_completes [of "convert env path to sf ff" env w] that
    by (simp add: convert_empty_target start_def)
  from 1 2 3 4 show ?thesis by blast
qed


theorem unsupported_target_abort_iff_empty_witness:
  "complete (run_schedule ex_env [0, 0] (start (convert ex_env ''d'' [] [] []) ex_world))
   \<and> main_result (run_schedule ex_env [0, 0] (start (convert ex_env ''d'' [] [] []) ex_world))
       = Raised (Runtime_error ''Unsupported target encoding: '')
   \<and> fst (exec ex_env (mapEncodingName ''latin9'') ex_world) \<noteq> Normal []
   \<and> fst (exec ex_env (convert_single ex_env ''d'' ''latin9'' [] []) ex_world)
       \<noteq> Raised (Runtime_error ''Unsupported target encoding: latin9'')"
  using unsupported_target_abort_iff_empty
          [where env = ex_env and x = "''latin9''" and w = ex_world and path = "''d''"
             and to = "[]" and sf = "[]" and ff = "[]" and sch = "[0, 0]"]
        unsupported_target_abort_iff_empty
          [where env = ex_env and x = "''latin9''" and w = ex_world and path = "''d''"
             and to = "''latin9''" and sf = "[]" and ff = "[]" and sch = "[]"]
  by (simp add: convert_empty_target pool_step_def complete_def)

subsection \<open>Runs that write nothing\<close>

lemma pool_step_no_write:
  assumes inv: "\<forall>P\<in>set (threads pl). always A P"
    and nw: "\<And>p. \<not> A (Act (Opened_out p))" "\<And>p d. \<not> A (Act (Wrote p d))"
  shows "files (shared (pool_step env i pl)) = files (shared pl)"
proof (cases "i < length (threads pl)")
  case False
  then show ?thesis by (simp add: pool_step_def)
next
  case True
  then have P: "always A (threads pl ! i)" using inv by simp
  show ?thesis
  proof (cases "threads pl ! i")
    case (Get h k)
    then show ?thesis using True
      by (cases "threads pl ! h") (simp_all add: pool_step_def)
  qed (use True P nw in \<open>simp_all add: pool_step_def\<close>)
qed

lemma run_schedule_no_write:
  assumes spawn: "\<And>t. A (Spawn t) \<Longrightarrow> always A (task_body env t)"
    and inv: "\<forall>P\<in>set (threads pl). always A P"
    and nw: "\<And>p. \<not> A (Act (Opened_out p))" "\<And>p d. \<not> A (Act (Wrote p d))"
  shows "files (shared (run_schedule env sch pl)) = files (shared pl)"
  using inv
proof (induction sch arbitrary: pl)
  case Nil
  then show ?case by simp
next
  case (Cons i sch)
  from always_pool_step [OF spawn Cons.prems, of i]
  have "\<forall>P\<in>set (threads (pool_step env i pl)). always A P" by blast
  from Cons.IH [OF this] pool_step_no_write [OF Cons.prems nw, of env i]
  show ?case by simp
qed

lemma exec_no_write:
  "always A P \<Longrightarrow> (\<And>p. \<not> A (Act (Opened_out p))) \<Longrightarrow> (\<And>p d. \<not> A (Act (Wrote p d)))
   \<Longrightarrow> files (snd (exec env P w)) = files w"
  by (induction P arbitrary: w) auto

text \<open>
  C1, as amended. When the target encoding is the empty string, \<open>convert_single\<close> and
  \<open>convert\<close> end with the unsupported-target error after logging it and nothing else:
  no file is opened or written, no task is started, and the content of every file is as
  before, under every schedule.
\<close>

theorem empty_target_aborts_before_any_file:
  "exec env (convert_single env path [] sf ff) w =
     (Raised (Runtime_error ''Unsupported target encoding: ''),
      emit (Logged ERROR ''Unsupported target encoding: '') w)
   \<and> length (threads (run_schedule env sch (start (convert env path [] sf ff) w))) = 1
   \<and> files (shared (run_schedule env sch (start (convert env path [] sf ff) w))) = files w
   \<and> (\<forall>e\<in>set (new_events w (shared (run_schedule env sch (start (convert env path [] sf ff) w)))).
         \<not> file_event e)
   \<and> (complete (run_schedule env sch (start (convert env path [] sf ff) w)) \<longrightarrow>
        main_result (run_schedule env sch (start (convert env path [] sf ff) w))
          = Raised (Runtime_error ''Unsupported target encoding: '')
        \<and> shared (run_schedule env sch (start (convert env path [] sf ff) w))
          = emit (Logged ERROR ''Unsupported target encoding: '') w)
   \<and> (\<exists>sch'. complete (run_schedule env sch' (start (convert env path [] sf ff) w)))"
proof -
  let ?main = "convert env path [] sf ff"
  let ?pl = "run_schedule env sch (start ?main w)"
  let ?A = "\<lambda>a. case a of Act e \<Rightarrow> \<not> file_event e | Spawn t \<Rightarrow> False | Raise e \<Rightarrow> True"
  have tf: "thread_free ?main" by (simp add: convert_empty_target)
  have al: "\<forall>P\<in>set (threads (start ?main w)). always ?A P" by (simp add: convert_empty_target)
  have sp: "\<And>t. ?A (Spawn t) \<Longrightarrow> always ?A (task_body env t)" by simp
  from run_schedule_single [OF tf, of env sch w]
  have 2: "length (threads ?pl) = 1" by (auto simp: start_def)
  from run_schedule_no_write [of ?A env, OF sp al, of sch]
  have 3: "files (shared ?pl) = files w" by simp
  from always_run_schedule [of ?A env, OF sp al, of sch]
  obtain evs where "trace (shared ?pl) = trace w @ evs" "\<forall>e\<in>set evs. \<not> file_event e"
    by auto
  then have 4: "\<forall>e\<in>set (new_events w (shared ?pl)). \<not> file_event e"
    by (simp add: new_events_app)
  have 5: "main_result ?pl = Raised (Runtime_error ''Unsupported target encoding: '')
        \<and> shared ?pl = emit (Logged ERROR ''Unsupported target encoding: '') w"
    if "complete ?pl"
    using single_thread_run [OF tf that] by (simp add: convert_empty_target prod_eq_iff)
  have 6: "\<exists>sch'. complete (run_schedule env sch' (start ?main w))"
    using single_thread_completes [OF tf, of env w] by (simp add: start_def)
  from exec_convert_single_empty_target [of env path sf ff w] 2 3 4 5 6 show ?thesis by blast
qed

theorem empty_target_aborts_before_any_file_witness:
  "complete (run_schedule ex_env [0, 0] (start (convert ex_env ''d'' [] [] []) ex_world))
   \<and> shared (run_schedule ex_env [0, 0] (start (convert ex_env ''d'' [] [] []) ex_world))
       = emit (Logged ERROR ''Unsupported target encoding: '') ex_world
   \<and> files (shared (run_schedule ex_env [0] (start (convert ex_env ''d'' [] [] []) ex_world)))
       = files ex_world"
  using empty_target_aborts_before_any_file
          [where env = ex_env and path = "''d''" and sf = "[]" and ff = "[]" and w = ex_world
             and sch = "[0, 0]"]
        empty_target_aborts_before_any_file
          [where env = ex_env and path = "''d''" and sf = "[]" and ff = "[]" and w = ex_world
             and sch = "[0]"]
  by (simp add: convert_empty_target pool_step_def complete_def)

lemmas ex_run_simps =
  convert_single_def exec_bind exec_try_catch exec_mapEncodingName
  normalize_spec_def alias_table_def ex_env_def shouldProcessFile_def convertFile_def
  detectEncoding_def convertEncoding_def ex_world_def

text \<open>
  The claim C1 as stated fails for a target that is not in the alias table and is not
  empty: \<open>mapEncodingName\<close> returns it as it is, the run is not aborted, and the files are
  opened.
\<close>

theorem unsupported_target_no_abort_counterexample:
  "map_of alias_table (map tolower ''latin9'') = None
   \<and> fst (exec ex_env (convert_single ex_env ''d'' ''latin9'' [] []) ex_world) = Normal ()
   \<and> Opened_in ''d/a.txt''
       \<in> set (trace (snd (exec ex_env (convert_single ex_env ''d'' ''latin9'' [] []) ex_world)))"
  by (simp add: ex_run_simps)

subsection \<open>Events that are bound to happen\<close>

lemma inevitably_bind: "inevitably env e m \<Longrightarrow> inevitably env e (bind m f)"
  by (induction m) auto

lemma inevitably_bind_returns:
  "thread_free m \<Longrightarrow> always (\<lambda>a. \<forall>x. a \<noteq> Raise x) m
   \<Longrightarrow> \<forall>x\<in>returns m. inevitably env e (f x) \<Longrightarrow> inevitably env e (bind m f)"
proof (induction m)
  case (Open_in p k)
  have "inevitably env e (bind (k c) f)" for c
    using Open_in.prems by (intro Open_in.IH) auto
  then show ?case by simp
next
  case (Open_out p k)
  have "inevitably env e (bind (k b) f)" for b
    using Open_out.prems by (intro Open_out.IH) auto
  then show ?case by simp
qed auto

lemma always_True: "always (\<lambda>a. True) P"
  by (induction P) auto

lemma inevitably_try_catch: "inevitably env e m \<Longrightarrow> inevitably env e (try_catch m h)"
  by (induction m) auto

lemma inevitably_exec:
  "inevitably env e P \<Longrightarrow> exec env P w = (r, w') \<Longrightarrow> r \<noteq> Needs_threads
   \<Longrightarrow> e \<in> set (new_events w w')"
proof (induction P arbitrary: w)
  case (Log l m k)
  have A: "always (\<lambda>a. True) k" by (rule always_True)
  from always_exec [OF A, of env "emit (Logged l m) w" r w'] Log.prems
  obtain evs where evs: "trace w' = (trace w @ [Logged l m]) @ evs" by auto
  show ?case
  proof (cases "e = Logged l m")
    case True
    then show ?thesis using evs by (simp add: new_events_def)
  next
    case False
    with Log.prems Log.IH [of "emit (Logged l m) w"] have "e \<in> set (new_events (emit (Logged l m) w) w')"
      by simp
    then show ?thesis using evs by (simp add: new_events_def)
  qed
next
  case (Open_in p k)
  have A: "always (\<lambda>a. True) (k c)" for c by (rule always_True)
  from always_exec [OF A, of env _ "emit (Opened_in p) w" r w'] Open_in.prems
  obtain evs where evs: "trace w' = (trace w @ [Opened_in p]) @ evs" by auto
  show ?case
  proof (cases "e = Opened_in p")
    case True
    then show ?thesis using evs by (simp add: new_events_def)
  next
    case False
    with Open_in.prems Open_in.IH [of "k (files w (inode_of env p))" "emit (Opened_in p) w"]
    have "e \<in> set (new_events (emit (Opened_in p) w) w')"
      by simp
    then show ?thesis using evs by (simp add: new_events_def)
  qed
next
  case (Open_out p k)
  have A: "always (\<lambda>a. True) (k c)" for c by (rule always_True)
  from always_exec [OF A, of env _ "open_out env p w" r w'] Open_out.prems
  obtain evs where evs: "trace w' = (trace w @ [Opened_out p]) @ evs" by auto
  show ?case
  proof (cases "e = Opened_out p")
    case True
    then show ?thesis using evs by (simp add: new_events_def)
  next
    case False
    with Open_out.prems Open_out.IH [of "k (writable env p)" "open_out env p w"]
    have "e \<in> set (new_events (open_out env p w) w')"
      by simp
    then show ?thesis using evs by (simp add: new_events_def)
  qed
next
  case (Write p d k)
  have A: "always (\<lambda>a. True) k" by (rule always_True)
  from always_exec [OF A, of env "write_out env p d w" r w'] Write.prems
  obtain evs where evs: "trace w' = (trace w @ [Wrote p d]) @ evs" by auto
  show ?case
  proof (cases "e = Wrote p d")
    case True
    then show ?thesis using evs by (simp add: new_events_def)
  next
    case False
    with Write.prems Write.IH [of "write_out env p d w"]
    have "e \<in> set (new_events (write_out env p d w) w')"
      by simp
    then show ?thesis using evs by (simp add: new_events_def)
  qed
qed auto


lemma pool_step_other:
  assumes "j < length (threads pl)" "j \<noteq> i"
  shows "j < length (threads (pool_step env i pl)) \<and> threads (pool_step env i pl) ! j = threads pl ! j"
proof (cases "i < length (threads pl)")
  case False
  then show ?thesis using assms by (simp add: pool_step_def)
next
  case True
  show ?thesis
  proof (cases "threads pl ! i")
    case (Get h k)
    then show ?thesis using True assms
      by (cases "threads pl ! h") (simp_all add: pool_step_def)
  qed (use True assms in \<open>simp_all add: pool_step_def nth_append\<close>)
qed

lemma pool_step_trace:
  "\<exists>evs. trace (shared (pool_step env i pl)) = trace (shared pl) @ evs"
proof -
  have "\<forall>P\<in>set (threads pl). always (\<lambda>a. True) P" by (simp add: always_True)
  from always_pool_step [of "\<lambda>a. True" env pl i, OF always_True this] show ?thesis by blast
qed

lemma inevitably_pool_step:
  assumes "(\<exists>j<length (threads pl). inevitably env e (threads pl ! j))
           \<or> e \<in> set (drop n (trace (shared pl)))"
    and n: "n \<le> length (trace (shared pl))"
  shows "(\<exists>j<length (threads (pool_step env i pl)). inevitably env e (threads (pool_step env i pl) ! j))
         \<or> e \<in> set (drop n (trace (shared (pool_step env i pl))))"
  using assms(1)
proof
  assume "e \<in> set (drop n (trace (shared pl)))"
  then show ?thesis using pool_step_trace [of env i pl] n by auto
next
  assume "\<exists>j<length (threads pl). inevitably env e (threads pl ! j)"
  then obtain j where j: "j < length (threads pl)" "inevitably env e (threads pl ! j)" by blast
  show ?thesis
  proof (cases "j = i")
    case False
    with pool_step_other [OF j(1) False, of env] j(2) show ?thesis by auto
  next
    case True
    with j have i: "i < length (threads pl)" and P: "inevitably env e (threads pl ! i)" by simp_all
    show ?thesis
    proof (cases "threads pl ! i")
      case (Return x)
      then show ?thesis using P by simp
    next
      case (Throw x)
      then show ?thesis using P by simp
    next
      case (Log l m k)
      have step: "pool_step env i pl =
          \<lparr>threads = (threads pl)[i := k], shared = emit (Logged l m) (shared pl)\<rparr>"
        using i Log by (simp add: pool_step_def)
      from P Log have "e = Logged l m \<or> inevitably env e k" by simp
      then show ?thesis unfolding step using i n by (auto intro: exI [of _ i])
    next
      case (Open_in p k)
      have step: "pool_step env i pl =
          \<lparr>threads = (threads pl)[i := k (files (shared pl) (inode_of env p))],
           shared = emit (Opened_in p) (shared pl)\<rparr>"
        using i Open_in by (simp add: pool_step_def)
      from P Open_in have "e = Opened_in p \<or> inevitably env e (k (files (shared pl) (inode_of env p)))"
        by auto
      then show ?thesis unfolding step using i n by (auto intro: exI [of _ i])
    next
      case (Open_out p k)
      have step: "pool_step env i pl =
          \<lparr>threads = (threads pl)[i := k (writable env p)], shared = open_out env p (shared pl)\<rparr>"
        using i Open_out by (simp add: pool_step_def)
      from P Open_out have "e = Opened_out p \<or> inevitably env e (k (writable env p))" by auto
      then show ?thesis unfolding step using i n by (auto intro: exI [of _ i])
    next
      case (Write p d k)
      have step: "pool_step env i pl =
          \<lparr>threads = (threads pl)[i := k], shared = write_out env p d (shared pl)\<rparr>"
        using i Write by (simp add: pool_step_def)
      from P Write have "e = Wrote p d \<or> inevitably env e k" by simp
      then show ?thesis unfolding step using i n by (auto intro: exI [of _ i])
    next
      case (Async t k)
      have step: "pool_step env i pl =
          \<lparr>threads = (threads pl)[i := k (length (threads pl))] @ [task_body env t],
           shared = shared pl\<rparr>"
        using i Async by (simp add: pool_step_def)
      from P Async have "inevitably env e (task_body env t) \<or> inevitably env e (k (length (threads pl)))"
        by (auto split: prog.splits)
      then show ?thesis
      proof
        assume "inevitably env e (task_body env t)"
        then show ?thesis unfolding step
          by (auto intro!: exI [of _ "length (threads pl)"] simp: nth_append)
      next
        assume "inevitably env e (k (length (threads pl)))"
        then show ?thesis unfolding step using i
          by (auto intro!: exI [of _ i] simp: nth_append)
      qed
    next
      case (Get h k)
      show ?thesis
      proof (cases "h < length (threads pl) \<and> ended (threads pl ! h)")
        case False
        then have "pool_step env i pl = pl"
          using i Get by (cases "threads pl ! h") (auto simp: pool_step_def)
        then show ?thesis using j True by auto
      next
        case h: True
        then obtain r where step: "pool_step env i pl =
            \<lparr>threads = (threads pl)[i := k r], shared = shared pl\<rparr>"
          using i Get by (cases "threads pl ! h") (auto simp: pool_step_def)
        from P Get have "inevitably env e (k r)" by simp
        then show ?thesis unfolding step using i n by (auto intro: exI [of _ i])
      qed
    qed
  qed
qed

lemma inevitably_run_schedule:
  assumes "(\<exists>j<length (threads pl). inevitably env e (threads pl ! j))
           \<or> e \<in> set (drop n (trace (shared pl)))"
    and "n \<le> length (trace (shared pl))"
  shows "(\<exists>j<length (threads (run_schedule env sch pl)). inevitably env e (threads (run_schedule env sch pl) ! j))
         \<or> e \<in> set (drop n (trace (shared (run_schedule env sch pl))))"
  using assms
proof (induction sch arbitrary: pl)
  case Nil
  then show ?case by simp
next
  case (Cons i sch)
  from pool_step_trace [of env i pl] Cons.prems(2)
  have "n \<le> length (trace (shared (pool_step env i pl)))" by auto
  from Cons.IH [OF inevitably_pool_step [OF Cons.prems, of i] this] show ?case by simp
qed

lemma ended_not_inevitably: "ended P \<Longrightarrow> \<not> inevitably env e P"
  by (cases P) auto

lemma inevitably_complete:
  assumes "inevitably env e main" "complete (run_schedule env sch (start main w))"
  shows "e \<in> set (new_events w (shared (run_schedule env sch (start main w))))"
proof -
  have "(\<exists>j<length (threads (start main w)). inevitably env e (threads (start main w) ! j))
        \<or> e \<in> set (drop (length (trace w)) (trace (shared (start main w))))"
    using assms(1) by simp
  from inevitably_run_schedule [OF this, of sch] assms(2) show ?thesis
    by (auto simp: complete_def list_all_length ended_not_inevitably new_events_def)
qed

subsection \<open>The sequential scheduler starts no thread\<close>

lemma confined_thread_free: "confined env n P \<Longrightarrow> thread_free P"
  by (induction P) auto

lemma thread_free_bind: "thread_free m \<Longrightarrow> (\<And>x. thread_free (f x)) \<Longrightarrow> thread_free (bind m f)"
  by (induction m) auto

lemma thread_free_try_catch:
  "thread_free m \<Longrightarrow> (\<And>e. thread_free (h e)) \<Longrightarrow> thread_free (try_catch m h)"
  by (induction m) auto

lemma thread_free_mapEncodingName: "thread_free (mapEncodingName x)"
  by (simp add: mapEncodingName_def Let_def)

lemma thread_free_shouldProcessFile: "thread_free (shouldProcessFile env n ff)"
  by (simp add: shouldProcessFile_def Let_def split: sum.splits)

lemma thread_free_task_body: "thread_free (task_body env t)"
  unfolding task_body_def
  by (intro thread_free_try_catch confined_thread_free [OF confined_convertFile]) simp

lemma thread_free_exec: "thread_free P \<Longrightarrow> fst (exec env P w) \<noteq> Needs_threads"
  by (induction P arbitrary: w) auto

lemma thread_free_convert_single_entries:
  "thread_free (convert_single_entries env es m sf ff)"
proof (induction es)
  case End
  show ?case by simp
next
  case (Iterator_error msg)
  show ?case by simp
next
  case (Entry p status es)
  have "thread_free (try_catch (convertFile env p m sf)
          (\<lambda>e. Log ERROR (''Error converting '' @ p @ '': '' @ what e) (Return ())))"
    using thread_free_task_body [of env "\<lparr>t_path = p, t_to = m, t_filter = sf\<rparr>"]
    by (simp add: task_body_def)
  then show ?case
    using Entry
    by (auto intro!: thread_free_bind thread_free_shouldProcessFile split: sum.splits)
qed

lemma thread_free_convert_single: "thread_free (convert_single env path to sf ff)"
  unfolding convert_single_def
  using thread_free_task_body [of env "\<lparr>t_path = path, t_to = m, t_filter = sf\<rparr>" for m]
  by (auto intro!: thread_free_bind thread_free_mapEncodingName thread_free_shouldProcessFile
      thread_free_convert_single_entries simp: task_body_def split: sum.splits)

subsection \<open>A malformed filename filter\<close>

lemma shouldProcessFile_malformed:
  assumes "ff \<noteq> []" "malformed env (''^.*'' @ [backslash] @ ''.('' @ ff @ '')$'')"
  shows "\<exists>msg. shouldProcessFile env n ff =
           Log ERROR (''Invalid regex filter: '' @ ff @ '' | Error: '' @ msg)
             (Throw (Runtime_error (''Invalid regex filter: '' @ ff)))"
  using assms by (auto simp: shouldProcessFile_def malformed_def Let_def split: sum.splits)

lemma convert_entries_malformed:
  assumes "ff \<noteq> []" "malformed env (''^.*'' @ [backslash] @ ''.('' @ ff @ '')$'')"
  shows "bind (convert_entries env es m sf ff []) get_all = convert_single_entries env es m sf ff"
proof (induction es)
  case End
  show ?case by simp
next
  case (Iterator_error msg)
  show ?case by simp
next
  case (Entry p status es)
  from shouldProcessFile_malformed [OF assms, of "filename p"]
  obtain msg where "shouldProcessFile env (filename p) ff =
           Log ERROR (''Invalid regex filter: '' @ ff @ '' | Error: '' @ msg)
             (Throw (Runtime_error (''Invalid regex filter: '' @ ff)))" by blast
  then show ?case using Entry by (simp split: sum.splits)
qed

lemma convert_malformed:
  assumes "ff \<noteq> []" "malformed env (''^.*'' @ [backslash] @ ''.('' @ ff @ '')$'')"
  shows "convert env path to sf ff = convert_single env path to sf ff"
proof -
  from shouldProcessFile_malformed [OF assms, of "filename path"]
  obtain msg where S: "shouldProcessFile env (filename path) ff =
           Log ERROR (''Invalid regex filter: '' @ ff @ '' | Error: '' @ msg)
             (Throw (Runtime_error (''Invalid regex filter: '' @ ff)))" by blast
  show ?thesis
    unfolding convert_def convert_single_def
    by (rule arg_cong [where f = "bind (mapEncodingName to)"], rule ext)
       (simp add: S convert_entries_malformed [OF assms] split: sum.splits)
qed

lemma exec_convert_single_entries_malformed:
  assumes "ff \<noteq> []" "malformed env (''^.*'' @ [backslash] @ ''.('' @ ff @ '')$'')"
  shows "fst (exec env (convert_single_entries env es m sf ff) w) =
           (if \<exists>p. (p, True) \<in> set (entries es)
            then Raised (Runtime_error (''Invalid regex filter: '' @ ff))
            else case walk_error es of
                   None \<Rightarrow> Normal ()
                 | Some msg \<Rightarrow> Raised (Filesystem_error msg))"
proof (induction es arbitrary: w)
  case End
  show ?case by simp
next
  case (Iterator_error msg)
  show ?case by simp
next
  case (Entry p status es)
  from shouldProcessFile_malformed [OF assms, of "filename p"]
  obtain msg where "shouldProcessFile env (filename p) ff =
           Log ERROR (''Invalid regex filter: '' @ ff @ '' | Error: '' @ msg)
             (Throw (Runtime_error (''Invalid regex filter: '' @ ff)))" by blast
  then show ?case using Entry by (auto split: sum.splits)
qed

lemma exec_convert_single_malformed:
  assumes "ff \<noteq> []" "malformed env (''^.*'' @ [backslash] @ ''.('' @ ff @ '')$'')"
    and "to \<noteq> []"
    and "if is_directory env path = Inr True
         then \<exists>p. (p, True) \<in> set (entries (recursive_directory_iterator env path))
         else is_directory env path = Inr False \<and> is_regular_file env path = Inr True"
  shows "fst (exec env (convert_single env path to sf ff) w) =
           Raised (Runtime_error (''Invalid regex filter: '' @ ff))"
proof -
  from shouldProcessFile_malformed [OF assms(1,2), of "filename path"]
  obtain msg where S: "shouldProcessFile env (filename path) ff =
           Log ERROR (''Invalid regex filter: '' @ ff @ '' | Error: '' @ msg)
             (Throw (Runtime_error (''Invalid regex filter: '' @ ff)))" by blast
  show ?thesis
    using assms(3,4)
    by (auto simp: convert_single_def exec_bind exec_mapEncodingName normalize_spec_empty S
        exec_convert_single_entries_malformed [OF assms(1,2)] split: if_splits sum.splits)
qed

lemma not_accepted_malformed:
  "ff \<noteq> [] \<Longrightarrow> malformed env (''^.*'' @ [backslash] @ ''.('' @ ff @ '')$'') \<Longrightarrow> \<not> accepted env n ff"
  by (auto simp: accepted_def malformed_def split: sum.splits)

lemma ex_malformed:
  "malformed ex_env (''^.*'' @ [backslash] @ ''.('' @ ''('' @ '')$'')"
  "malformed ex_env (''^('' @ ''('' @ '')$'')"
  by (simp_all add: malformed_def std_regex_def rx_parse_def backslash_def syntax_char_def)

subsection \<open>Files that the filename filter rejects\<close>

lemma no_raise_shouldProcessFile:
  "ff = [] \<or> \<not> malformed env (''^.*'' @ [backslash] @ ''.('' @ ff @ '')$'')
   \<Longrightarrow> always (\<lambda>a. \<forall>x. a \<noteq> Raise x) (shouldProcessFile env n ff)"
  by (intro always_shouldProcessFile) (auto simp: malformed_def)

lemma no_raise_task_body: "always (\<lambda>a. \<forall>x. a \<noteq> Raise x) (task_body env t)"
  by (intro always_task_body) simp_all

lemma no_raise_mapEncodingName: "always (\<lambda>a. \<forall>x. a \<noteq> Raise x) (mapEncodingName x)"
  by (intro always_mapEncodingName) simp

lemma inevitably_mismatch:
  assumes "\<not> malformed env (''^.*'' @ [backslash] @ ''.('' @ ff @ '')$'')" "\<not> accepted env n ff"
  shows "inevitably env (Logged WARN (''File MisMatch: '' @ n @ '' does not match filter: '' @ ff))
           (shouldProcessFile env n ff)"
  using assms
  by (auto simp: shouldProcessFile_def accepted_def malformed_def Let_def split: sum.splits)

lemma unwinding_no_raise:
  "thread_free m \<Longrightarrow> always (\<lambda>a. \<forall>x. a \<noteq> Raise x) m \<Longrightarrow> unwinding futures m = m"
  unfolding unwinding_def by (induction m) auto

lemma unwinding_shouldProcessFile:
  "ff = [] \<or> \<not> malformed env (''^.*'' @ [backslash] @ ''.('' @ ff @ '')$'')
   \<Longrightarrow> unwinding futures (shouldProcessFile env n ff) = shouldProcessFile env n ff"
  by (intro unwinding_no_raise thread_free_shouldProcessFile no_raise_shouldProcessFile)

lemma inevitably_mismatch_single_entries:
  assumes ok: "\<not> malformed env (''^.*'' @ [backslash] @ ''.('' @ ff @ '')$'')"
    and na: "\<not> accepted env (filename p) ff"
  shows "(p, True) \<in> set (entries es) \<Longrightarrow>
         inevitably env (Logged WARN (''File MisMatch: '' @ filename p @ '' does not match filter: '' @ ff))
           (convert_single_entries env es m sf ff)"
proof (induction es)
  case End
  then show ?case by simp
next
  case (Iterator_error msg)
  then show ?case by simp
next
  case (Entry q status es)
  let ?e = "Logged WARN (''File MisMatch: '' @ filename p @ '' does not match filter: '' @ ff)"
  from Entry.prems obtain regular where status: "status = Inr regular"
    by (cases status) auto
  show ?case
  proof (cases "(q, regular) = (p, True)")
    case True
    then show ?thesis
      using inevitably_mismatch [OF ok na] status by (simp add: inevitably_bind)
  next
    case False
    with Entry status have IH: "inevitably env ?e (convert_single_entries env es m sf ff)"
      by auto
    show ?thesis
    proof (cases regular)
      case r: True
      have "inevitably env ?e
          (bind (task_body env \<lparr>t_path = q, t_to = m, t_filter = sf\<rparr>)
             (\<lambda>_. convert_single_entries env es m sf ff))"
        by (rule inevitably_bind_returns [OF thread_free_task_body no_raise_task_body])
           (use IH in blast)
      then have "inevitably env ?e
          (bind (shouldProcessFile env (filename q) ff) (\<lambda>process.
             if process then
               bind (task_body env \<lparr>t_path = q, t_to = m, t_filter = sf\<rparr>)
                 (\<lambda>_. convert_single_entries env es m sf ff)
             else convert_single_entries env es m sf ff))"
        using IH ok
        by (intro inevitably_bind_returns thread_free_shouldProcessFile no_raise_shouldProcessFile)
           auto
      then show ?thesis using status r by (simp add: task_body_def cong: if_cong)
    next
      case r: False
      then show ?thesis using status IH by simp
    qed
  qed
qed

lemma inevitably_mismatch_entries:
  assumes ok: "\<not> malformed env (''^.*'' @ [backslash] @ ''.('' @ ff @ '')$'')"
    and na: "\<not> accepted env (filename p) ff"
  shows "(p, True) \<in> set (entries es) \<Longrightarrow>
         inevitably env (Logged WARN (''File MisMatch: '' @ filename p @ '' does not match filter: '' @ ff))
           (convert_entries env es m sf ff futures)"
proof (induction es arbitrary: futures)
  case End
  then show ?case by simp
next
  case (Iterator_error msg)
  then show ?case by simp
next
  case (Entry q status es)
  let ?e = "Logged WARN (''File MisMatch: '' @ filename p @ '' does not match filter: '' @ ff)"
  from Entry.prems obtain regular where status: "status = Inr regular"
    by (cases status) auto
  note U = unwinding_shouldProcessFile [OF disjI2 [OF ok]]
  show ?case
  proof (cases "(q, regular) = (p, True)")
    case True
    then show ?thesis
      using inevitably_mismatch [OF ok na] status by (simp add: inevitably_bind U)
  next
    case False
    with Entry status have IH: "inevitably env ?e (convert_entries env es m sf ff futs)" for futs
      by auto
    show ?thesis
    proof (cases regular)
      case r: True
      have "inevitably env ?e
          (bind (shouldProcessFile env (filename q) ff) (\<lambda>process.
             if process then
               Async \<lparr>t_path = q, t_to = m, t_filter = sf\<rparr>
                 (\<lambda>future. convert_entries env es m sf ff (futures @ [future]))
             else convert_entries env es m sf ff futures))"
        using IH ok
        by (intro inevitably_bind_returns thread_free_shouldProcessFile no_raise_shouldProcessFile)
           auto
      then show ?thesis using status r by (simp add: U)
    next
      case r: False
      then show ?thesis using status IH by simp
    qed
  qed
qed

lemma inevitably_after_mapEncodingName:
  assumes "inevitably env e (f (normalize_spec to))"
  shows "inevitably env e (bind (mapEncodingName to) f)"
  by (rule inevitably_bind_returns [OF thread_free_mapEncodingName no_raise_mapEncodingName])
     (simp add: returns_mapEncodingName assms)

lemma inevitably_mismatch_convert_single:
  assumes ok: "\<not> malformed env (''^.*'' @ [backslash] @ ''.('' @ ff @ '')$'')"
    and na: "\<not> accepted env (filename p) ff"
    and to: "to \<noteq> []"
    and p: "if is_directory env path = Inr True
            then (p, True) \<in> set (entries (recursive_directory_iterator env path))
            else is_directory env path = Inr False \<and> is_regular_file env path = Inr True
                 \<and> path = p"
  shows "inevitably env (Logged WARN (''File MisMatch: '' @ filename p @ '' does not match filter: '' @ ff))
           (convert_single env path to sf ff)"
  unfolding convert_single_def
  using to p inevitably_mismatch_single_entries [OF ok na] inevitably_mismatch [OF ok na]
  by (intro inevitably_after_mapEncodingName)
     (auto simp: normalize_spec_empty inevitably_bind split: if_splits)

lemma inevitably_mismatch_convert:
  assumes ok: "\<not> malformed env (''^.*'' @ [backslash] @ ''.('' @ ff @ '')$'')"
    and na: "\<not> accepted env (filename p) ff"
    and to: "to \<noteq> []"
    and p: "if is_directory env path = Inr True
            then (p, True) \<in> set (entries (recursive_directory_iterator env path))
            else is_directory env path = Inr False \<and> is_regular_file env path = Inr True
                 \<and> path = p"
  shows "inevitably env (Logged WARN (''File MisMatch: '' @ filename p @ '' does not match filter: '' @ ff))
           (convert env path to sf ff)"
  unfolding convert_def
  using to p inevitably_mismatch_entries [OF ok na] inevitably_mismatch [OF ok na]
  by (intro inevitably_after_mapEncodingName)
     (auto simp: normalize_spec_empty inevitably_bind split: if_splits)


text \<open>
  C8. A file whose name the filename filter does not accept is never opened, for reading
  or for writing, and never written, by \<open>convert_single\<close> or under any schedule of
  \<open>convert\<close>. When the filter is well formed and the run
  reaches the file (a regular entry that the walk of the directory hands over, or the
  regular file that the path names), the run logs the mismatch for it.
\<close>

theorem rejected_file_is_never_opened:
  "\<not> accepted env (filename p) ff \<longrightarrow>
     (\<forall>e\<in>set (new_events w (snd (exec env (convert_single env path to sf ff) w))).
         e \<noteq> Opened_in p \<and> e \<noteq> Opened_out p \<and> (\<forall>d. e \<noteq> Wrote p d))
   \<and> (\<forall>e\<in>set (new_events w (shared (run_schedule env sch (start (convert env path to sf ff) w)))).
         e \<noteq> Opened_in p \<and> e \<noteq> Opened_out p \<and> (\<forall>d. e \<noteq> Wrote p d))
   \<and> (\<not> malformed env (''^.*'' @ [backslash] @ ''.('' @ ff @ '')$'') \<and> to \<noteq> []
       \<and> (if is_directory env path = Inr True
           then (p, True) \<in> set (entries (recursive_directory_iterator env path))
           else is_directory env path = Inr False \<and> is_regular_file env path = Inr True
                \<and> path = p) \<longrightarrow>
       Logged WARN (''File MisMatch: '' @ filename p @ '' does not match filter: '' @ ff)
         \<in> set (new_events w (snd (exec env (convert_single env path to sf ff) w)))
       \<and> (complete (run_schedule env sch (start (convert env path to sf ff) w)) \<longrightarrow>
           Logged WARN (''File MisMatch: '' @ filename p @ '' does not match filter: '' @ ff)
             \<in> set (new_events w
                      (shared (run_schedule env sch (start (convert env path to sf ff) w))))))"
proof (intro impI conjI; (elim conjE)?)
  let ?single = "convert_single env path to sf ff"
  let ?pl = "run_schedule env sch (start (convert env path to sf ff) w)"
  let ?A = "\<lambda>a. case a of
              Act e \<Rightarrow> e \<noteq> Opened_in p \<and> e \<noteq> Opened_out p \<and> (\<forall>d. e \<noteq> Wrote p d)
            | Spawn t \<Rightarrow> t_path t \<noteq> p
            | Raise e \<Rightarrow> True"
  assume na: "\<not> accepted env (filename p) ff"
  have sp: "always ?A (task_body env t)" if "?A (Spawn t)" for t
    using that by (intro always_task_body) auto
  have other: "q \<noteq> p" if "accepted env (filename q) ff" for q
    using that na by auto
  have al: "always ?A ?single"
    using sp other by (intro always_convert_single) auto
  have "always ?A (convert env path to sf ff)"
    using sp other by (intro always_convert) auto
  then have al': "\<forall>P\<in>set (threads (start (convert env path to sf ff) w)). always ?A P"
    by simp
  from always_exec [OF al, of env w "fst (exec env ?single w)" "snd (exec env ?single w)"]
  show "\<forall>e\<in>set (new_events w (snd (exec env ?single w))).
         e \<noteq> Opened_in p \<and> e \<noteq> Opened_out p \<and> (\<forall>d. e \<noteq> Wrote p d)"
    by (fastforce simp: new_events_app)
  from always_run_schedule [of ?A env, OF sp al', of sch]
  show "\<forall>e\<in>set (new_events w (shared ?pl)).
         e \<noteq> Opened_in p \<and> e \<noteq> Opened_out p \<and> (\<forall>d. e \<noteq> Wrote p d)"
    by (fastforce simp: new_events_app)
  assume ok: "\<not> malformed env (''^.*'' @ [backslash] @ ''.('' @ ff @ '')$'')" "to \<noteq> []"
    "if is_directory env path = Inr True
           then (p, True) \<in> set (entries (recursive_directory_iterator env path))
           else is_directory env path = Inr False \<and> is_regular_file env path = Inr True
                \<and> path = p"
  let ?e = "Logged WARN (''File MisMatch: '' @ filename p @ '' does not match filter: '' @ ff)"
  from inevitably_exec [OF inevitably_mismatch_convert_single [OF ok(1) na ok(2,3)],
      where w = w and r = "fst (exec env ?single w)" and w' = "snd (exec env ?single w)"]
    thread_free_exec [OF thread_free_convert_single, where env = env and path1 = path
      and to1 = to and sf1 = sf and ff1 = ff and w = w and env1 = env]
  show "?e \<in> set (new_events w (snd (exec env ?single w)))" by simp
  show "?e \<in> set (new_events w (shared ?pl))" if "complete ?pl"
    using inevitably_complete [OF inevitably_mismatch_convert [OF ok(1) na ok(2,3)] that] .
qed

lemma ex_not_accepted:
  "\<not> accepted ex_env (filename ''d/b.md'') ''txt''"
  "\<not> malformed ex_env (''^.*'' @ [backslash] @ ''.('' @ ''txt'' @ '')$'')"
  using rx_parse_txt
  by (simp_all add: accepted_def malformed_def std_regex_def filename_def
      regex_match_def lit_def line_terminator_def)

theorem rejected_file_is_never_opened_witness:
  "\<not> accepted ex_env (filename ''d/b.md'') ''txt''
   \<and> Opened_in ''d/b.md''
       \<notin> set (new_events ex_world
                (snd (exec ex_env (convert_single ex_env ''d'' ''UTF-8'' [] ''txt'') ex_world)))
   \<and> Logged WARN ''File MisMatch: b.md does not match filter: txt''
       \<in> set (new_events ex_world
                (snd (exec ex_env (convert_single ex_env ''d'' ''UTF-8'' [] ''txt'') ex_world)))"
proof -
  have d: "is_directory ex_env ''d'' = Inr True"
    "(''d/b.md'', True) \<in> set (entries (recursive_directory_iterator ex_env ''d''))"
    by (auto simp: ex_env_def)
  have f: "filename ''d/b.md'' = ''b.md''" by (simp add: filename_def)
  from rejected_file_is_never_opened
         [where env = ex_env and p = "''d/b.md''" and ff = "''txt''" and w = ex_world
            and path = "''d''" and to = "''UTF-8''" and sf = "[]" and sch = "[]"]
       ex_not_accepted d
  show ?thesis by (auto simp: f)
qed


subsection \<open>Every run can be drained\<close>

lemma finish_thread:
  "j < length (threads pl) \<Longrightarrow> threads pl ! j = P \<Longrightarrow> thread_free P \<Longrightarrow>
   \<exists>sch. ended (threads (run_schedule env sch pl) ! j)
         \<and> length (threads (run_schedule env sch pl)) = length (threads pl)
         \<and> (\<forall>i. i \<noteq> j \<longrightarrow> threads (run_schedule env sch pl) ! i = threads pl ! i)"
proof (induction P arbitrary: pl)
  case (Return x)
  then show ?case by (intro exI [of _ "[]"]) simp
next
  case (Throw x)
  then show ?case by (intro exI [of _ "[]"]) simp
next
  case (Log l m k)
  let ?pl = "\<lparr>threads = (threads pl)[j := k], shared = emit (Logged l m) (shared pl)\<rparr>"
  have step: "pool_step env j pl = ?pl" using Log.prems by (simp add: pool_step_def)
  from Log.IH [of ?pl] Log.prems
  obtain sch where "ended (threads (run_schedule env sch ?pl) ! j)"
    "length (threads (run_schedule env sch ?pl)) = length (threads ?pl)"
    "\<forall>i. i \<noteq> j \<longrightarrow> threads (run_schedule env sch ?pl) ! i = threads ?pl ! i" by auto
  then show ?case using step by (intro exI [of _ "j # sch"]) simp
next
  case (Open_in p k)
  let ?pl = "\<lparr>threads = (threads pl)[j := k (files (shared pl) (inode_of env p))],
             shared = emit (Opened_in p) (shared pl)\<rparr>"
  have step: "pool_step env j pl = ?pl" using Open_in.prems by (simp add: pool_step_def)
  from Open_in.IH [of "k (files (shared pl) (inode_of env p))" ?pl] Open_in.prems
  obtain sch where "ended (threads (run_schedule env sch ?pl) ! j)"
    "length (threads (run_schedule env sch ?pl)) = length (threads ?pl)"
    "\<forall>i. i \<noteq> j \<longrightarrow> threads (run_schedule env sch ?pl) ! i = threads ?pl ! i" by auto
  then show ?case using step by (intro exI [of _ "j # sch"]) simp
next
  case (Open_out p k)
  let ?pl = "\<lparr>threads = (threads pl)[j := k (writable env p)],
             shared = open_out env p (shared pl)\<rparr>"
  have step: "pool_step env j pl = ?pl" using Open_out.prems by (simp add: pool_step_def)
  from Open_out.IH [of "k (writable env p)" ?pl] Open_out.prems
  obtain sch where "ended (threads (run_schedule env sch ?pl) ! j)"
    "length (threads (run_schedule env sch ?pl)) = length (threads ?pl)"
    "\<forall>i. i \<noteq> j \<longrightarrow> threads (run_schedule env sch ?pl) ! i = threads ?pl ! i" by auto
  then show ?case using step by (intro exI [of _ "j # sch"]) simp
next
  case (Write p d k)
  let ?pl = "\<lparr>threads = (threads pl)[j := k], shared = write_out env p d (shared pl)\<rparr>"
  have step: "pool_step env j pl = ?pl" using Write.prems by (simp add: pool_step_def)
  from Write.IH [of ?pl] Write.prems
  obtain sch where "ended (threads (run_schedule env sch ?pl) ! j)"
    "length (threads (run_schedule env sch ?pl)) = length (threads ?pl)"
    "\<forall>i. i \<noteq> j \<longrightarrow> threads (run_schedule env sch ?pl) ! i = threads ?pl ! i" by auto
  then show ?case using step by (intro exI [of _ "j # sch"]) simp
qed simp_all

lemma finish_tasks:
  assumes "\<forall>i. 0 < i \<and> i < length (threads pl) \<longrightarrow> thread_free (threads pl ! i)"
  shows "n \<le> length (threads pl) \<Longrightarrow>
     \<exists>sch. (\<forall>i. 0 < i \<and> i < n \<longrightarrow> ended (threads (run_schedule env sch pl) ! i))
         \<and> length (threads (run_schedule env sch pl)) = length (threads pl)
         \<and> threads (run_schedule env sch pl) ! 0 = threads pl ! 0
         \<and> (\<forall>i. n \<le> i \<longrightarrow> threads (run_schedule env sch pl) ! i = threads pl ! i)"
proof (induction n)
  case 0
  show ?case by (intro exI [of _ "[]"]) simp
next
  case (Suc n)
  then obtain sch where sch: "\<forall>i. 0 < i \<and> i < n \<longrightarrow> ended (threads (run_schedule env sch pl) ! i)"
    "length (threads (run_schedule env sch pl)) = length (threads pl)"
    "threads (run_schedule env sch pl) ! 0 = threads pl ! 0"
    "\<forall>i. n \<le> i \<longrightarrow> threads (run_schedule env sch pl) ! i = threads pl ! i" by auto
  show ?case
  proof (cases "n = 0")
    case True
    then show ?thesis by (intro exI [of _ "[]"]) simp
  next
    case False
    let ?pl = "run_schedule env sch pl"
    have "thread_free (threads ?pl ! n)" using sch(4) assms Suc.prems False by simp
    from finish_thread [of n ?pl _ env, OF _ refl this] Suc.prems sch(2)
    obtain sch' where sch': "ended (threads (run_schedule env sch' ?pl) ! n)"
      "length (threads (run_schedule env sch' ?pl)) = length (threads ?pl)"
      "\<forall>i. i \<noteq> n \<longrightarrow> threads (run_schedule env sch' ?pl) ! i = threads ?pl ! i" by auto
    have "\<forall>i. 0 < i \<and> i < Suc n \<longrightarrow> ended (threads (run_schedule env (sch @ sch') pl) ! i)"
      using sch sch' by (auto simp: run_schedule_append less_Suc_eq)
    then show ?thesis
      using sch sch' False
      by (intro exI [of _ "sch @ sch'"]) (auto simp: run_schedule_append)
  qed
qed

lemma finish_main:
  "threads pl \<noteq> [] \<Longrightarrow> threads pl ! 0 = P \<Longrightarrow> joinable P (length (threads pl))
   \<Longrightarrow> (\<forall>i. 0 < i \<and> i < length (threads pl) \<longrightarrow> ended (threads pl ! i))
   \<Longrightarrow> \<exists>sch. complete (run_schedule env sch pl)"
proof (induction P arbitrary: pl)
  case (Return x)
  then have "\<forall>i<length (threads pl). ended (threads pl ! i)"
    by (metis ended.simps(1) neq0_conv)
  then show ?case by (intro exI [of _ "[]"]) (simp add: complete_def list_all_length)
next
  case (Throw x)
  then have "\<forall>i<length (threads pl). ended (threads pl ! i)"
    by (metis ended.simps(2) neq0_conv)
  then show ?case by (intro exI [of _ "[]"]) (simp add: complete_def list_all_length)
next
  case (Log l m k)
  let ?pl = "\<lparr>threads = (threads pl)[0 := k], shared = emit (Logged l m) (shared pl)\<rparr>"
  have step: "pool_step env 0 pl = ?pl" using Log.prems by (simp add: pool_step_def)
  from Log.IH [of ?pl] Log.prems
  obtain sch where "complete (run_schedule env sch ?pl)" by auto
  then show ?case using step by (intro exI [of _ "0 # sch"]) simp
next
  case (Open_in p k)
  let ?pl = "\<lparr>threads = (threads pl)[0 := k (files (shared pl) (inode_of env p))],
             shared = emit (Opened_in p) (shared pl)\<rparr>"
  have step: "pool_step env 0 pl = ?pl" using Open_in.prems by (simp add: pool_step_def)
  from Open_in.IH [of "k (files (shared pl) (inode_of env p))" ?pl] Open_in.prems
  obtain sch where "complete (run_schedule env sch ?pl)" by auto
  then show ?case using step by (intro exI [of _ "0 # sch"]) simp
next
  case (Open_out p k)
  let ?pl = "\<lparr>threads = (threads pl)[0 := k (writable env p)], shared = open_out env p (shared pl)\<rparr>"
  have step: "pool_step env 0 pl = ?pl" using Open_out.prems by (simp add: pool_step_def)
  from Open_out.IH [of "k (writable env p)" ?pl] Open_out.prems
  obtain sch where "complete (run_schedule env sch ?pl)" by auto
  then show ?case using step by (intro exI [of _ "0 # sch"]) simp
next
  case (Write p d k)
  let ?pl = "\<lparr>threads = (threads pl)[0 := k], shared = write_out env p d (shared pl)\<rparr>"
  have step: "pool_step env 0 pl = ?pl" using Write.prems by (simp add: pool_step_def)
  from Write.IH [of ?pl] Write.prems
  obtain sch where "complete (run_schedule env sch ?pl)" by auto
  then show ?case using step by (intro exI [of _ "0 # sch"]) simp
next
  case (Async t k)
  let ?n = "length (threads pl)"
  let ?pl = "\<lparr>threads = (threads pl)[0 := k ?n] @ [task_body env t], shared = shared pl\<rparr>"
  have step: "pool_step env 0 pl = ?pl" using Async.prems by (simp add: pool_step_def)
  have n: "0 < ?n" using Async.prems by simp
  from finish_thread [of ?n ?pl "task_body env t" env] thread_free_task_body [of env t]
  obtain sch1 where sch1: "ended (threads (run_schedule env sch1 ?pl) ! ?n)"
    "length (threads (run_schedule env sch1 ?pl)) = length (threads ?pl)"
    "\<forall>i. i \<noteq> ?n \<longrightarrow> threads (run_schedule env sch1 ?pl) ! i = threads ?pl ! i"
    by (auto simp: nth_append)
  let ?pl1 = "run_schedule env sch1 ?pl"
  have a: "threads ?pl1 \<noteq> []" using sch1(2) by auto
  have b: "threads ?pl1 ! 0 = k ?n" using sch1(3) n by (simp add: nth_append)
  have c: "joinable (k ?n) (length (threads ?pl1))" using Async.prems sch1(2) by simp
  have d: "\<forall>i. 0 < i \<and> i < length (threads ?pl1) \<longrightarrow> ended (threads ?pl1 ! i)"
  proof (intro allI impI)
    fix i assume i: "0 < i \<and> i < length (threads ?pl1)"
    show "ended (threads ?pl1 ! i)"
    proof (cases "i = ?n")
      case True
      then show ?thesis using sch1(1) by simp
    next
      case False
      with i sch1(2) have "i < ?n" by simp
      with False i sch1(3) Async.prems(4) show ?thesis by (simp add: nth_append)
    qed
  qed
  from Async.IH [of "k ?n" ?pl1, OF _ a b c d]
  obtain sch2 where "complete (run_schedule env sch2 ?pl1)" by auto
  then show ?case using step by (intro exI [of _ "0 # sch1 @ sch2"]) (simp add: run_schedule_append)
next
  case (Get h k)
  from Get.prems have h: "0 < h" "h < length (threads pl)" "ended (threads pl ! h)" by auto
  then obtain r where step: "pool_step env 0 pl = \<lparr>threads = (threads pl)[0 := k r], shared = shared pl\<rparr>"
    using Get.prems by (cases "threads pl ! h") (auto simp: pool_step_def)
  let ?pl = "\<lparr>threads = (threads pl)[0 := k r], shared = shared pl\<rparr>"
  from Get.IH [of "k r" ?pl] Get.prems
  obtain sch where "complete (run_schedule env sch ?pl)" by auto
  then show ?case using step by (intro exI [of _ "0 # sch"]) simp
qed

lemma drainable_completes:
  assumes "drainable pl"
  shows "\<exists>sch. complete (run_schedule env sch pl)"
proof -
  from assms have tf: "\<forall>i. 0 < i \<and> i < length (threads pl) \<longrightarrow> thread_free (threads pl ! i)"
    and ne: "threads pl \<noteq> []" and j: "joinable (threads pl ! 0) (length (threads pl))"
    by (simp_all add: drainable_def)
  from finish_tasks [OF tf, of "length (threads pl)" env]
  obtain sch where sch: "\<forall>i. 0 < i \<and> i < length (threads pl) \<longrightarrow> ended (threads (run_schedule env sch pl) ! i)"
    "length (threads (run_schedule env sch pl)) = length (threads pl)"
    "threads (run_schedule env sch pl) ! 0 = threads pl ! 0" by auto
  let ?pl = "run_schedule env sch pl"
  have ne': "threads ?pl \<noteq> []" using sch(2) ne by auto
  from finish_main [of ?pl "threads pl ! 0" env] sch ne' j
  obtain sch' where "complete (run_schedule env sch' ?pl)" by auto
  then show ?thesis by (intro exI [of _ "sch @ sch'"]) (simp add: run_schedule_append)
qed


lemma drainable_pool_step:
  assumes "drainable pl"
  shows "drainable (pool_step env i pl)"
proof (cases "i < length (threads pl)")
  case False
  then show ?thesis using assms by (simp add: pool_step_def)
next
  case i: True
  from assms have ne: "threads pl \<noteq> []"
    and j: "joinable (threads pl ! 0) (length (threads pl))"
    and tf: "\<And>i. 0 < i \<Longrightarrow> i < length (threads pl) \<Longrightarrow> thread_free (threads pl ! i)"
    by (simp_all add: drainable_def)
  show ?thesis
  proof (cases "i = 0")
    case True
    show ?thesis
    proof (cases "threads pl ! 0")
      case (Get h k)
      show ?thesis
      proof (cases "ended (threads pl ! h)")
        case False
        then have "pool_step env i pl = pl"
          using True Get by (cases "threads pl ! h") (auto simp: pool_step_def)
        then show ?thesis using assms by simp
      next
        case e: True
        from j Get have "h < length (threads pl)" by simp
        then obtain r where "pool_step env i pl = \<lparr>threads = (threads pl)[0 := k r], shared = shared pl\<rparr>"
          using True Get e ne by (cases "threads pl ! h") (auto simp: pool_step_def)
        then show ?thesis using j Get ne tf by (auto simp: drainable_def)
      qed
    next
      case (Async t k)
      have "pool_step env i pl =
          \<lparr>threads = (threads pl)[0 := k (length (threads pl))] @ [task_body env t],
           shared = shared pl\<rparr>"
        using True Async ne by (simp add: pool_step_def)
      then show ?thesis
        using j Async ne tf thread_free_task_body [of env t]
        by (auto simp: drainable_def nth_append)
    qed (use True j ne tf in \<open>auto simp: pool_step_def drainable_def\<close>)
  next
    case False
    then have P: "thread_free (threads pl ! i)" using tf i by simp
    show ?thesis
    proof (cases "threads pl ! i")
      case (Log l m k)
      then show ?thesis using P i False ne j tf
        by (auto simp: pool_step_def drainable_def nth_list_update)
    next
      case (Open_in p k)
      then show ?thesis using P i False ne j tf
        by (auto simp: pool_step_def drainable_def nth_list_update)
    next
      case (Open_out p k)
      then show ?thesis using P i False ne j tf
        by (auto simp: pool_step_def drainable_def nth_list_update)
    next
      case (Write p d k)
      then show ?thesis using P i False ne j tf
        by (auto simp: pool_step_def drainable_def nth_list_update)
    qed (use P i assms in \<open>simp_all add: pool_step_def\<close>)
  qed
qed

lemma drainable_run_schedule: "drainable pl \<Longrightarrow> drainable (run_schedule env sch pl)"
  by (induction sch arbitrary: pl) (simp_all add: drainable_pool_step)

lemma thread_free_joinable: "thread_free P \<Longrightarrow> joinable P n"
  by (induction P arbitrary: n) auto

lemma joinable_bind_returns:
  "thread_free m \<Longrightarrow> \<forall>x\<in>returns m. joinable (f x) n \<Longrightarrow> joinable (bind m f) n"
proof (induction m)
  case (Open_in p k)
  have "joinable (bind (k c) f) n" for c using Open_in.prems by (intro Open_in.IH) auto
  then show ?case by simp
next
  case (Open_out p k)
  have "joinable (bind (k b) f) n" for b using Open_out.prems by (intro Open_out.IH) auto
  then show ?case by simp
qed auto

lemma bind_Return: "bind m Return = m"
  by (induction m) auto

lemma bind_assoc: "bind (bind m f) g = bind m (\<lambda>x. bind (f x) g)"
  by (induction m) auto

lemma returns_bind: "returns (bind m f) = (\<Union>x\<in>returns m. returns (f x))"
  by (induction m) auto

lemma joinable_get_all: "\<forall>h\<in>set futures. 0 < h \<and> h < n \<Longrightarrow> joinable (get_all futures) n"
  by (induction futures) (auto split: option.splits)

lemma joinable_destroy:
  "\<forall>h\<in>set futures. 0 < h \<and> h < n \<Longrightarrow> joinable (destroy futures k) n = joinable k n"
  by (induction futures) auto

lemma joinable_convert_entries:
  "\<forall>h\<in>set futures. 0 < h \<and> h < n \<Longrightarrow> 0 < n \<Longrightarrow>
   joinable (bind (convert_entries env es m sf ff futures) get_all) n"
proof (induction es arbitrary: futures n)
  case End
  then show ?case by (simp add: joinable_get_all)
next
  case (Iterator_error msg)
  then show ?case by (simp add: joinable_destroy)
next
  case (Entry q status es)
  have IH: "joinable (bind (convert_entries env es m sf ff futures) get_all) n"
    using Entry by simp
  show ?case
  proof (cases status)
    case (Inl msg)
    then show ?thesis using Entry.prems by (simp add: joinable_destroy)
  next
    case (Inr regular)
    show ?thesis
    proof (cases regular)
      case True
      have A: "joinable (bind (convert_entries env es m sf ff (futures @ [n])) get_all) (Suc n)"
        using Entry.prems by (intro Entry.IH) auto
      from shouldProcessFile_shape [of env "filename q" ff]
      consider
        (yes) "shouldProcessFile env (filename q) ff = Return True"
        | (no) msg where "shouldProcessFile env (filename q) ff = Log WARN msg (Return False)"
        | (bad) msg e where "shouldProcessFile env (filename q) ff = Log ERROR msg (Throw e)"
        by blast
      then show ?thesis
      proof cases
        case yes
        then show ?thesis using Inr True A by simp
      next
        case no
        then show ?thesis using Inr True IH by simp
      next
        case bad
        then show ?thesis using Inr True Entry.prems by (simp add: joinable_destroy)
      qed
    next
      case False
      then show ?thesis using Inr IH by simp
    qed
  qed
qed

lemma convert_without_tasks:
  assumes "is_directory env path \<noteq> Inr True \<or> to = []"
  shows "convert env path to sf ff = convert_single env path to sf ff"
proof (cases "to = []")
  case True
  then show ?thesis by (simp add: convert_def convert_single_def mapEncodingName_def)
next
  case False
  with assms have nd: "is_directory env path \<noteq> Inr True" by simp
  have single: "bind (bind (shouldProcessFile env (filename path) ff) (\<lambda>process.
                   if process then
                     Log INFO (''Processing single file: '' @ path)
                       (bind
                          (try_catch
                             (convertFile env path m sf)
                             (\<lambda>e. Log ERROR (''Error converting '' @ path @ '': '' @ what e)
                                    (Return ())))
                          (\<lambda>_. Return []))
                   else
                     Log WARN (''File does not match filter and will be skipped: '' @ path)
                       (Return []))) get_all
       = bind (shouldProcessFile env (filename path) ff) (\<lambda>process.
                if process then
                  Log INFO (''Processing single file: '' @ path)
                    (try_catch (convertFile env path m sf)
                       (\<lambda>e. Log ERROR (''Error converting '' @ path @ '': '' @ what e)
                              (Return ())))
                else
                  Log WARN (''File does not match filter and will be skipped: '' @ path)
                    (Return ()))" for m
    unfolding bind_assoc
    by (rule arg_cong [where f = "bind (shouldProcessFile env (filename path) ff)"], rule ext)
       (simp add: bind_assoc bind_Return)
  show ?thesis
    unfolding convert_def convert_single_def
    by (rule arg_cong [where f = "bind (mapEncodingName to)"], rule ext)
       (use nd in \<open>simp add: single split: sum.splits\<close>)
qed

lemma joinable_convert: "joinable (convert env path to sf ff) (Suc 0)"
proof (cases "is_directory env path = Inr True \<and> to \<noteq> []")
  case False
  then have "convert env path to sf ff = convert_single env path to sf ff"
    by (intro convert_without_tasks) auto
  then show ?thesis by (simp add: thread_free_joinable thread_free_convert_single)
next
  case True
  then show ?thesis
    using mapEncodingName_shape [of to] joinable_convert_entries [of "[]" "Suc 0"]
    by (auto simp: convert_def normalize_spec_empty)
qed

lemma drainable_convert: "drainable (run_schedule env sch (start (convert env path to sf ff) w))"
  by (rule drainable_run_schedule) (simp add: drainable_def joinable_convert)

lemma convert_can_be_drained:
  "\<exists>sch'. complete (run_schedule env (sch @ sch') (start (convert env path to sf ff) w))"
  using drainable_completes [OF drainable_convert, of env env sch path to sf ff w]
  by (simp add: run_schedule_append)


subsection \<open>Files that the filename filter accepts\<close>

lemma inevitably_task_body: "inevitably env (Opened_in (t_path t)) (task_body env t)"
  by (simp add: task_body_def convertFile_def)

lemma task_body_opens: "\<exists>k. task_body env t = Open_in (t_path t) k"
  by (simp add: task_body_def convertFile_def)

lemma inevitably_opened_single_entries:
  assumes ok: "ff = [] \<or> \<not> malformed env (''^.*'' @ [backslash] @ ''.('' @ ff @ '')$'')"
    and acc: "accepted env (filename p) ff"
  shows "(p, True) \<in> set (entries es) \<Longrightarrow>
         inevitably env (Opened_in p) (convert_single_entries env es m sf ff)"
proof (induction es)
  case End
  then show ?case by simp
next
  case (Iterator_error msg)
  then show ?case by simp
next
  case (Entry q status es)
  from Entry.prems obtain regular where status: "status = Inr regular"
    by (cases status) auto
  have S: "inevitably env (Opened_in p)
          (bind (shouldProcessFile env (filename q) ff) (\<lambda>process.
             if process then
               bind (task_body env \<lparr>t_path = q, t_to = m, t_filter = sf\<rparr>)
                 (\<lambda>_. convert_single_entries env es m sf ff)
             else convert_single_entries env es m sf ff))"
    if "\<forall>x\<in>returns (shouldProcessFile env (filename q) ff).
          inevitably env (Opened_in p) (if x then
               bind (task_body env \<lparr>t_path = q, t_to = m, t_filter = sf\<rparr>)
                 (\<lambda>_. convert_single_entries env es m sf ff)
             else convert_single_entries env es m sf ff)"
    using that ok
    by (intro inevitably_bind_returns thread_free_shouldProcessFile no_raise_shouldProcessFile)
  show ?case
  proof (cases "(q, regular) = (p, True)")
    case True
    have "inevitably env (Opened_in p)
            (bind (task_body env \<lparr>t_path = p, t_to = m, t_filter = sf\<rparr>)
               (\<lambda>_. convert_single_entries env es m sf ff))"
      using inevitably_task_body [where env = env and t = "\<lparr>t_path = p, t_to = m, t_filter = sf\<rparr>"]
      by (intro inevitably_bind) simp
    then have "\<forall>x\<in>returns (shouldProcessFile env (filename q) ff).
          inevitably env (Opened_in p) (if x then
               bind (task_body env \<lparr>t_path = q, t_to = m, t_filter = sf\<rparr>)
                 (\<lambda>_. convert_single_entries env es m sf ff)
             else convert_single_entries env es m sf ff)"
      using returns_shouldProcessFile [of env "filename p" ff] acc True by auto
    from S [OF this] show ?thesis using status True by (simp add: task_body_def cong: if_cong)
  next
    case False
    with Entry status have IH: "inevitably env (Opened_in p) (convert_single_entries env es m sf ff)"
      by auto
    show ?thesis
    proof (cases regular)
      case r: True
      have "inevitably env (Opened_in p)
          (bind (task_body env \<lparr>t_path = q, t_to = m, t_filter = sf\<rparr>)
             (\<lambda>_. convert_single_entries env es m sf ff))"
        by (rule inevitably_bind_returns [OF thread_free_task_body no_raise_task_body])
           (use IH in blast)
      with IH have "\<forall>x\<in>returns (shouldProcessFile env (filename q) ff).
          inevitably env (Opened_in p) (if x then
               bind (task_body env \<lparr>t_path = q, t_to = m, t_filter = sf\<rparr>)
                 (\<lambda>_. convert_single_entries env es m sf ff)
             else convert_single_entries env es m sf ff)" by simp
      from S [OF this] show ?thesis using status r by (simp add: task_body_def cong: if_cong)
    next
      case r: False
      then show ?thesis using status IH by simp
    qed
  qed
qed

lemma inevitably_opened_entries:
  assumes ok: "ff = [] \<or> \<not> malformed env (''^.*'' @ [backslash] @ ''.('' @ ff @ '')$'')"
    and acc: "accepted env (filename p) ff"
  shows "(p, True) \<in> set (entries es) \<Longrightarrow>
         inevitably env (Opened_in p) (convert_entries env es m sf ff futures)"
proof (induction es arbitrary: futures)
  case End
  then show ?case by simp
next
  case (Iterator_error msg)
  then show ?case by simp
next
  case (Entry q status es)
  from Entry.prems obtain regular where status: "status = Inr regular"
    by (cases status) auto
  note U = unwinding_shouldProcessFile [OF ok]
  have S: "inevitably env (Opened_in p)
          (bind (shouldProcessFile env (filename q) ff) (\<lambda>process.
             if process then
               Async \<lparr>t_path = q, t_to = m, t_filter = sf\<rparr>
                 (\<lambda>future. convert_entries env es m sf ff (futures @ [future]))
             else convert_entries env es m sf ff futures))"
    if "\<forall>x\<in>returns (shouldProcessFile env (filename q) ff).
          inevitably env (Opened_in p) (if x then
               Async \<lparr>t_path = q, t_to = m, t_filter = sf\<rparr>
                 (\<lambda>future. convert_entries env es m sf ff (futures @ [future]))
             else convert_entries env es m sf ff futures)"
    using that ok
    by (intro inevitably_bind_returns thread_free_shouldProcessFile no_raise_shouldProcessFile)
  show ?case
  proof (cases "(q, regular) = (p, True)")
    case True
    have "inevitably env (Opened_in p)
            (Async \<lparr>t_path = p, t_to = m, t_filter = sf\<rparr>
                 (\<lambda>future. convert_entries env es m sf ff (futures @ [future])))"
      using task_body_opens [where env = env and t = "\<lparr>t_path = p, t_to = m, t_filter = sf\<rparr>"] by auto
    then have "\<forall>x\<in>returns (shouldProcessFile env (filename q) ff).
          inevitably env (Opened_in p) (if x then
               Async \<lparr>t_path = q, t_to = m, t_filter = sf\<rparr>
                 (\<lambda>future. convert_entries env es m sf ff (futures @ [future]))
             else convert_entries env es m sf ff futures)"
      using returns_shouldProcessFile [of env "filename p" ff] acc True by auto
    from S [OF this] show ?thesis using status True by (simp add: U cong: if_cong)
  next
    case False
    with Entry status have IH: "inevitably env (Opened_in p) (convert_entries env es m sf ff futs)"
      for futs by auto
    show ?thesis
    proof (cases regular)
      case r: True
      from IH have "\<forall>x\<in>returns (shouldProcessFile env (filename q) ff).
          inevitably env (Opened_in p) (if x then
               Async \<lparr>t_path = q, t_to = m, t_filter = sf\<rparr>
                 (\<lambda>future. convert_entries env es m sf ff (futures @ [future]))
             else convert_entries env es m sf ff futures)" by simp
      from S [OF this] show ?thesis using status r by (simp add: U)
    next
      case r: False
      then show ?thesis using status IH by simp
    qed
  qed
qed

lemma inevitably_opened_convert_single:
  assumes "ff = [] \<or> \<not> malformed env (''^.*'' @ [backslash] @ ''.('' @ ff @ '')$'')"
    and "accepted env (filename p) ff" and "to \<noteq> []" and "is_directory env path = Inr True"
    and "(p, True) \<in> set (entries (recursive_directory_iterator env path))"
  shows "inevitably env (Opened_in p) (convert_single env path to sf ff)"
  unfolding convert_single_def
  using assms(3-) inevitably_opened_single_entries [OF assms(1,2)]
  by (intro inevitably_after_mapEncodingName) (auto simp: normalize_spec_empty)

lemma inevitably_opened_convert:
  assumes "ff = [] \<or> \<not> malformed env (''^.*'' @ [backslash] @ ''.('' @ ff @ '')$'')"
    and "accepted env (filename p) ff" and "to \<noteq> []" and "is_directory env path = Inr True"
    and "(p, True) \<in> set (entries (recursive_directory_iterator env path))"
  shows "inevitably env (Opened_in p) (convert env path to sf ff)"
  unfolding convert_def
  using assms(3-) inevitably_opened_entries [OF assms(1,2)]
  by (intro inevitably_after_mapEncodingName) (auto simp: normalize_spec_empty inevitably_bind)

subsection \<open>Jobs on files of their own\<close>

lemma map_of_zip_update:
  "distinct ns \<Longrightarrow> length Ps = length ns \<Longrightarrow> j < length ns \<Longrightarrow>
   map_of (zip ns (Ps[j := P])) = (map_of (zip ns Ps))(ns ! j \<mapsto> P)"
proof (induction ns arbitrary: Ps j)
  case Nil
  then show ?case by simp
next
  case (Cons n ns)
  then obtain Q Qs where Ps: "Ps = Q # Qs" by (cases Ps) auto
  show ?case
  proof (cases j)
    case 0
    then show ?thesis using Ps by (auto simp: fun_eq_iff)
  next
    case (Suc i)
    with Cons.prems Ps have "ns ! i \<noteq> n" by auto
    with Cons Suc Ps show ?thesis by (auto simp: fun_eq_iff)
  qed
qed

lemma map_of_zip_nth':
  "distinct ns \<Longrightarrow> length Ps = length ns \<Longrightarrow> j < length ns \<Longrightarrow>
   map_of (zip ns Ps) (ns ! j) = Some (Ps ! j)"
  by (simp add: map_of_zip_nth)

lemma sum_list_update_mset:
  "j < length xs \<Longrightarrow> sum_list (xs[j := y]) + xs ! j = sum_list xs + (y :: 'a multiset)"
proof (induction xs arbitrary: j)
  case Nil
  then show ?case by simp
next
  case (Cons x xs)
  then show ?case
  proof (cases j)
    case 0
    then show ?thesis by (simp add: ac_simps)
  next
    case (Suc i)
    with Cons.prems have "i < length xs" by simp
    from Cons.IH [OF this] Suc show ?thesis
      by (simp add: ac_simps)
  qed
qed

lemma job_step:
  assumes d: "distinct ns" and len: "length Ps = length ns" and j: "j < length ns"
    and old: "local env (Ps ! j) (f (ns ! j)) = (r, c, e # evs)"
    and new: "local env P (g (ns ! j)) = (r, c, evs)"
    and same: "\<And>x. x \<noteq> ns ! j \<Longrightarrow> g x = f x"
  shows "job_files env ns (Ps[j := P]) g = job_files env ns Ps f"
    and "job_events env ns (Ps[j := P]) g + {#e#} = job_events env ns Ps f"
proof -
  show "job_files env ns (Ps[j := P]) g = job_files env ns Ps f"
  proof
    fix x
    show "job_files env ns (Ps[j := P]) g x = job_files env ns Ps f x"
    proof (cases "x = ns ! j")
      case True
      then show ?thesis
        using old new map_of_zip_nth' [OF d len j]
        by (simp add: job_files_def map_of_zip_update [OF d len j])
    next
      case False
      then show ?thesis
        using same [of x]
        by (simp add: job_files_def map_of_zip_update [OF d len j] split: option.splits)
    qed
  qed
  let ?F = "\<lambda>h. (\<lambda>(n, P). mset (snd (snd (local env P (h n)))))"
  have "map (?F g) (zip ns (Ps[j := P])) = (map (?F f) (zip ns Ps))[j := mset evs]"
  proof (rule nth_equalityI)
    show "length (map (?F g) (zip ns (Ps[j := P]))) = length ((map (?F f) (zip ns Ps))[j := mset evs])"
      by simp
    fix i assume "i < length (map (?F g) (zip ns (Ps[j := P])))"
    then have i: "i < length ns" using len by simp
    show "map (?F g) (zip ns (Ps[j := P])) ! i = (map (?F f) (zip ns Ps))[j := mset evs] ! i"
    proof (cases "i = j")
      case True
      then show ?thesis using i len new by simp
    next
      case False
      then have "ns ! i \<noteq> ns ! j" using d i j by (simp add: nth_eq_iff_index_eq)
      then show ?thesis using i len False same by simp
    qed
  qed
  moreover have "map (?F f) (zip ns Ps) ! j = {#e#} + mset evs"
    using j len old by simp
  ultimately show "job_events env ns (Ps[j := P]) g + {#e#} = job_events env ns Ps f"
    using sum_list_update_mset [of j "map (?F f) (zip ns Ps)" "mset evs"] j len
    by (simp add: job_events_def ac_simps)
qed


subsection \<open>Runs of the concurrent scheduler follow the plan\<close>

lemma jobs_length: "length running \<le> length ts \<Longrightarrow> length (jobs env ts running) = length ts"
  by (simp add: jobs_def)

lemma jobs_nth: "j < length running \<Longrightarrow> jobs env ts running ! j = running ! j"
  by (simp add: jobs_def nth_append)

lemma jobs_update:
  "j < length running \<Longrightarrow> jobs env ts (running[j := P]) = (jobs env ts running)[j := P]"
  by (simp add: jobs_def list_update_append1)

lemma jobs_spawn:
  assumes "drop (length running) ts = t # rest"
  shows "jobs env ts (running @ [task_body env t]) = jobs env ts running"
    and "drop (Suc (length running)) ts = rest"
    and "Suc (length running) \<le> length ts"
proof -
  from assms show rest: "drop (Suc (length running)) ts = rest"
    by (metis drop_Suc list.sel(3) tl_drop)
  with assms show "jobs env ts (running @ [task_body env t]) = jobs env ts running"
    by (simp add: jobs_def)
  from assms show "Suc (length running) \<le> length ts"
    by (metis Suc_leI drop_eq_Nil list.distinct(1) not_le_imp_less)
qed

lemma on_planI:
  assumes "threads pl = main # running" "length running \<le> length ts"
    and "\<And>j. j < length ts \<Longrightarrow> confined env (task_inode env (ts ! j)) (jobs env ts running ! j)"
    and "\<And>j. j < length ts \<Longrightarrow> always (\<lambda>a. \<forall>x. a \<noteq> Raise x) (jobs env ts running ! j)"
    and "plan main (Suc (length running)) = (r, evs, drop (length running) ts)"
    and "final = (r, job_files env (map (task_inode env) ts) (jobs env ts running) (files (shared pl)),
                  mset (trace (shared pl)) + mset evs
                  + job_events env (map (task_inode env) ts) (jobs env ts running)
                      (files (shared pl)))"
  shows "on_plan env ts final pl"
  using assms by (simp add: on_plan_def)

lemma on_planE:
  assumes "on_plan env ts final pl"
  obtains main running r evs where
    "threads pl = main # running" "length running \<le> length ts"
    "\<And>j. j < length ts \<Longrightarrow> confined env (task_inode env (ts ! j)) (jobs env ts running ! j)"
    "\<And>j. j < length ts \<Longrightarrow> always (\<lambda>a. \<forall>x. a \<noteq> Raise x) (jobs env ts running ! j)"
    "plan main (Suc (length running)) = (r, evs, drop (length running) ts)"
    "final = (r, job_files env (map (task_inode env) ts) (jobs env ts running) (files (shared pl)),
                  mset (trace (shared pl)) + mset evs
                  + job_events env (map (task_inode env) ts) (jobs env ts running)
                      (files (shared pl)))"
  using assms by (auto simp: on_plan_def split: list.splits prod.splits)

lemma on_plan_task_step:
  assumes d: "distinct (map (task_inode env) ts)"
    and inv: "on_plan env ts final pl"
    and th: "threads pl = main # running" and j: "j < length running"
    and old: "local env (running ! j) (files (shared pl) (task_inode env (ts ! j))) = (r, c, e # evs)"
    and new: "local env P (g (task_inode env (ts ! j))) = (r, c, evs)"
    and same: "\<And>x. x \<noteq> task_inode env (ts ! j) \<Longrightarrow> g x = files (shared pl) x"
    and P: "confined env (task_inode env (ts ! j)) P" "always (\<lambda>a. \<forall>x. a \<noteq> Raise x) P"
    and th': "threads pl' = main # running[j := P]"
    and sh': "files (shared pl') = g" "trace (shared pl') = trace (shared pl) @ [e]"
  shows "on_plan env ts final pl'"
proof -
  from inv th obtain r0 evs0 where
    len: "length running \<le> length ts"
    and conf: "\<And>j. j < length ts \<Longrightarrow> confined env (task_inode env (ts ! j)) (jobs env ts running ! j)"
    and nr: "\<And>j. j < length ts \<Longrightarrow> always (\<lambda>a. \<forall>x. a \<noteq> Raise x) (jobs env ts running ! j)"
    and pl: "plan main (Suc (length running)) = (r0, evs0, drop (length running) ts)"
    and fin: "final = (r0, job_files env (map (task_inode env) ts) (jobs env ts running) (files (shared pl)),
                  mset (trace (shared pl)) + mset evs0
                  + job_events env (map (task_inode env) ts) (jobs env ts running)
                      (files (shared pl)))"
    by (auto elim!: on_planE)
  let ?ns = "map (task_inode env) ts"
  let ?Ps = "jobs env ts running"
  have jt: "j < length ?ns" using j len by simp
  have lenP: "length ?Ps = length ?ns" using len by (simp add: jobs_length)
  have nj: "?ns ! j = task_inode env (ts ! j)" using jt by simp
  have old': "local env (?Ps ! j) (files (shared pl) (?ns ! j)) = (r, c, e # evs)"
    using old j nj by (simp add: jobs_nth)
  have new': "local env P (g (?ns ! j)) = (r, c, evs)" using new nj by simp
  have same': "\<And>x. x \<noteq> ?ns ! j \<Longrightarrow> g x = files (shared pl) x" using same nj by simp
  note js = job_step [where f = "files (shared pl)" and g = g, OF d lenP jt old' new' same']
  show ?thesis
  proof (rule on_planI [OF th'])
    show "length (running[j := P]) \<le> length ts" using len by simp
    show "confined env (task_inode env (ts ! i)) (jobs env ts (running[j := P]) ! i)"
      if "i < length ts" for i
      using that conf [of i] P(1) j lenP by (cases "i = j") (simp_all add: jobs_update)
    show "always (\<lambda>a. \<forall>x. a \<noteq> Raise x) (jobs env ts (running[j := P]) ! i)"
      if "i < length ts" for i
      using that nr [of i] P(2) j lenP by (cases "i = j") (simp_all add: jobs_update)
    show "plan main (Suc (length (running[j := P]))) = (r0, evs0, drop (length (running[j := P])) ts)"
      using pl by simp
    show "final = (r0, job_files env ?ns (jobs env ts (running[j := P])) (files (shared pl')),
                  mset (trace (shared pl')) + mset evs0
                  + job_events env ?ns (jobs env ts (running[j := P])) (files (shared pl')))"
      using fin js(1) js(2) [symmetric] j by (simp add: sh' jobs_update ac_simps)
  qed
qed


lemma on_plan_pool_step:
  assumes d: "distinct (map (task_inode env) ts)"
    and nt: "fst final \<noteq> Needs_threads"
    and inv: "on_plan env ts final pl"
  shows "on_plan env ts final (pool_step env i pl)"
proof -
  from inv obtain main running r evs where
    th: "threads pl = main # running"
    and len: "length running \<le> length ts"
    and conf: "\<And>j. j < length ts \<Longrightarrow> confined env (task_inode env (ts ! j)) (jobs env ts running ! j)"
    and nr: "\<And>j. j < length ts \<Longrightarrow> always (\<lambda>a. \<forall>x. a \<noteq> Raise x) (jobs env ts running ! j)"
    and pl: "plan main (Suc (length running)) = (r, evs, drop (length running) ts)"
    and fin: "final = (r, job_files env (map (task_inode env) ts) (jobs env ts running) (files (shared pl)),
                  mset (trace (shared pl)) + mset evs
                  + job_events env (map (task_inode env) ts) (jobs env ts running)
                      (files (shared pl)))"
    by (auto elim!: on_planE)
  from fin nt have r: "r \<noteq> Needs_threads" by simp
  show ?thesis
  proof (cases i)
    case 0
    show ?thesis
    proof (cases main)
      case (Return x)
      then have "pool_step env i pl = pl" using 0 th by (simp add: pool_step_def)
      then show ?thesis using inv by simp
    next
      case (Throw e)
      then have "pool_step env i pl = pl" using 0 th by (simp add: pool_step_def)
      then show ?thesis using inv by simp
    next
      case (Log l m k)
      with pl obtain evs0 where k: "plan k (Suc (length running)) = (r, evs0, drop (length running) ts)"
        and evs: "evs = Logged l m # evs0"
        by (auto split: prod.splits)
      have step: "pool_step env i pl
                  = \<lparr>threads = k # running, shared = emit (Logged l m) (shared pl)\<rparr>"
        using 0 th Log by (simp add: pool_step_def)
      show ?thesis
        unfolding step
        by (rule on_planI [where main = k and running = running and r = r and evs = evs0])
           (use len conf nr k fin evs in \<open>simp_all add: emit_def\<close>)
    next
      case (Open_in p k)
      with pl r show ?thesis by simp
    next
      case (Open_out p k)
      with pl r show ?thesis by simp
    next
      case (Write p c k)
      with pl r show ?thesis by simp
    next
      case (Async t k)
      with pl obtain rest where
        k: "plan (k (Suc (length running))) (Suc (Suc (length running))) = (r, evs, rest)"
        and rest: "drop (length running) ts = t # rest"
        by (auto split: prod.splits)
      note sp = jobs_spawn [OF rest]
      have step: "pool_step env i pl
                  = \<lparr>threads = k (Suc (length running)) # running @ [task_body env t],
                     shared = shared pl\<rparr>"
        using 0 th Async by (simp add: pool_step_def)
      show ?thesis
        unfolding step
        by (rule on_planI [where main = "k (Suc (length running))"
              and running = "running @ [task_body env t]" and r = r and evs = evs])
           (use sp conf nr k fin in \<open>simp_all\<close>)
    next
      case (Get h k)
      show ?thesis
      proof (cases "h < length (threads pl) \<and> ended (threads pl ! h)")
        case False
        then have "pool_step env i pl = pl"
          using 0 th Get by (cases "threads pl ! h") (auto simp: pool_step_def)
        then show ?thesis using inv by simp
      next
        case True
        then obtain j where h: "h = Suc j" and j: "j < length running" and e: "ended (running ! j)"
          using th Get by (cases h) auto
        from nr [of j] j len have "always (\<lambda>a. \<forall>x. a \<noteq> Raise x) (running ! j)"
          by (simp add: jobs_nth)
        with e obtain x where x: "running ! j = Return x" by (cases "running ! j") auto
        have step: "pool_step env i pl = \<lparr>threads = k None # running, shared = shared pl\<rparr>"
          using 0 th Get h j x by (simp add: pool_step_def)
        show ?thesis
          unfolding step
          by (rule on_planI [where main = "k None" and running = running and r = r and evs = evs])
             (use len conf nr pl Get fin in \<open>simp_all\<close>)
      qed
    qed
  next
    case (Suc j)
    show ?thesis
    proof (cases "j < length running")
      case False
      then have "pool_step env i pl = pl" using Suc th by (simp add: pool_step_def)
      then show ?thesis using inv by simp
    next
      case j: True
      let ?n = "task_inode env (ts ! j)"
      let ?f = "files (shared pl)"
      from conf [of j] nr [of j] j len
      have c: "confined env ?n (running ! j)"
        and a: "always (\<lambda>a. \<forall>x. a \<noteq> Raise x) (running ! j)"
        by (simp_all add: jobs_nth)
      show ?thesis
      proof (cases "running ! j")
        case (Return x)
        then have "pool_step env i pl = pl" using Suc th j by (simp add: pool_step_def)
        then show ?thesis using inv by simp
      next
        case (Throw e)
        then have "pool_step env i pl = pl" using Suc th j by (simp add: pool_step_def)
        then show ?thesis using inv by simp
      next
        case (Async t k)
        with c show ?thesis by simp
      next
        case (Get h k)
        with c show ?thesis by simp
      next
        case (Log l m k)
        obtain r' c' evs' where k: "local env k (?f ?n) = (r', c', evs')"
          by (cases "local env k (?f ?n)")
        show ?thesis
        proof (rule on_plan_task_step [OF d inv th j, where P = k and g = ?f and e = "Logged l m"])
          show "local env (running ! j) (?f ?n) = (r', c', Logged l m # evs')"
            using Log k by simp
          show "local env k (?f ?n) = (r', c', evs')" by (rule k)
          show "confined env ?n k" "always (\<lambda>a. \<forall>x. a \<noteq> Raise x) k"
            using c a Log by simp_all
          show "threads (pool_step env i pl) = main # running[j := k]"
            "files (shared (pool_step env i pl)) = ?f"
            "trace (shared (pool_step env i pl)) = trace (shared pl) @ [Logged l m]"
            using Suc th j Log by (simp_all add: pool_step_def emit_def)
        qed simp
      next
        case (Open_in p k)
        with c have n: "inode_of env p = ?n" by simp
        obtain r' c' evs' where k: "local env (k (?f ?n)) (?f ?n) = (r', c', evs')"
          by (cases "local env (k (?f ?n)) (?f ?n)")
        show ?thesis
        proof (rule on_plan_task_step [OF d inv th j, where P = "k (?f ?n)" and g = ?f
              and e = "Opened_in p"])
          show "local env (running ! j) (?f ?n) = (r', c', Opened_in p # evs')"
            using Open_in k by simp
          show "local env (k (?f ?n)) (?f ?n) = (r', c', evs')" by (rule k)
          show "confined env ?n (k (?f ?n))" "always (\<lambda>a. \<forall>x. a \<noteq> Raise x) (k (?f ?n))"
            using c a Open_in by simp_all
          show "threads (pool_step env i pl) = main # running[j := k (?f ?n)]"
            "files (shared (pool_step env i pl)) = ?f"
            "trace (shared (pool_step env i pl)) = trace (shared pl) @ [Opened_in p]"
            using Suc th j Open_in n by (simp_all add: pool_step_def emit_def)
        qed simp
      next
        case (Open_out p k)
        with c have n: "inode_of env p = ?n" by simp
        let ?g = "files (open_out env p (shared pl))"
        obtain r' c' evs' where k: "local env (k (writable env p)) (?g ?n) = (r', c', evs')"
          by (cases "local env (k (writable env p)) (?g ?n)")
        show ?thesis
        proof (rule on_plan_task_step [OF d inv th j, where P = "k (writable env p)" and g = ?g
              and e = "Opened_out p"])
          show "local env (running ! j) (?f ?n) = (r', c', Opened_out p # evs')"
            using Open_out k n by (cases "writable env p") simp_all
          show "local env (k (writable env p)) (?g ?n) = (r', c', evs')" by (rule k)
          show "confined env ?n (k (writable env p))"
            "always (\<lambda>a. \<forall>x. a \<noteq> Raise x) (k (writable env p))"
            using c a Open_out by simp_all
          show "threads (pool_step env i pl) = main # running[j := k (writable env p)]"
            "files (shared (pool_step env i pl)) = ?g"
            "trace (shared (pool_step env i pl)) = trace (shared pl) @ [Opened_out p]"
            using Suc th j Open_out by (simp_all add: pool_step_def)
          show "?g x = ?f x" if "x \<noteq> ?n" for x
            using that n by simp
        qed
      next
        case (Write p c0 k)
        with c have n: "inode_of env p = ?n" by simp
        let ?g = "files (write_out env p c0 (shared pl))"
        obtain r' c' evs' where k: "local env k (?g ?n) = (r', c', evs')"
          by (cases "local env k (?g ?n)")
        show ?thesis
        proof (rule on_plan_task_step [OF d inv th j, where P = k and g = ?g
              and e = "Wrote p c0"])
          show "local env (running ! j) (?f ?n) = (r', c', Wrote p c0 # evs')"
            using Write k n by simp
          show "local env k (?g ?n) = (r', c', evs')" by (rule k)
          show "confined env ?n k" "always (\<lambda>a. \<forall>x. a \<noteq> Raise x) k"
            using c a Write by simp_all
          show "threads (pool_step env i pl) = main # running[j := k]"
            "files (shared (pool_step env i pl)) = ?g"
            "trace (shared (pool_step env i pl)) = trace (shared pl) @ [Wrote p c0]"
            using Suc th j Write by (simp_all add: pool_step_def)
          show "?g x = ?f x" if "x \<noteq> ?n" for x
            using that n by simp
        qed
      qed
    qed
  qed
qed

lemma on_plan_run_schedule:
  assumes "distinct (map (task_inode env) ts)" "fst final \<noteq> Needs_threads"
  shows "on_plan env ts final pl \<Longrightarrow> on_plan env ts final (run_schedule env sch pl)"
  by (induction sch arbitrary: pl) (simp_all add: on_plan_pool_step [OF assms])

subsection \<open>The sequential scheduler runs each task where the concurrent one starts it\<close>

lemma sequential_thread_free: "thread_free P \<Longrightarrow> sequential env P n = P"
  by (induction P) auto

lemma sequential_bind:
  "thread_free m \<Longrightarrow> sequential env (bind m f) n = bind m (\<lambda>x. sequential env (f x) n)"
  by (induction m) auto

lemma sequential_get_all: "sequential env (get_all futures) n = Return ()"
  by (induction futures) auto

lemma sequential_destroy [simp]: "sequential env (destroy futures k) n = sequential env k n"
  by (induction futures) auto

lemma sequential_convert_entries:
  "sequential env (bind (convert_entries env es m sf ff futures) get_all) n
     = convert_single_entries env es m sf ff"
proof (induction es arbitrary: futures n)
  case End
  show ?case by (simp add: sequential_get_all)
next
  case (Iterator_error msg)
  show ?case by simp
next
  case (Entry p status es)
  show ?case
  proof (cases status)
    case (Inl msg)
    then show ?thesis by simp
  next
    case (Inr regular)
    show ?thesis
    proof (cases regular)
      case True
      from shouldProcessFile_shape [of env "filename p" ff]
      consider
        (yes) "shouldProcessFile env (filename p) ff = Return True"
        | (no) msg where "shouldProcessFile env (filename p) ff = Log WARN msg (Return False)"
        | (bad) msg e where "shouldProcessFile env (filename p) ff = Log ERROR msg (Throw e)"
        by blast
      then show ?thesis
      proof cases
        case yes
        then show ?thesis using Inr True Entry.IH by (simp add: task_body_def)
      next
        case no
        then show ?thesis using Inr True Entry.IH by simp
      next
        case bad
        then show ?thesis using Inr True by simp
      qed
    next
      case False
      then show ?thesis using Inr Entry.IH by simp
    qed
  qed
qed

lemma sequential_convert:
  "sequential env (convert env path to sf ff) (Suc 0) = convert_single env path to sf ff"
proof (cases "is_directory env path = Inr True \<and> to \<noteq> []")
  case False
  then have "convert env path to sf ff = convert_single env path to sf ff"
    by (intro convert_without_tasks) auto
  then show ?thesis by (simp add: sequential_thread_free thread_free_convert_single)
next
  case True
  then show ?thesis
    using mapEncodingName_shape [of to]
    by (auto simp: convert_def convert_single_def normalize_spec_empty
        sequential_convert_entries)
qed

subsection \<open>The plan of a run and its sequential execution\<close>

lemma confined_task_body: "confined env (task_inode env t) (task_body env t)"
  unfolding task_body_def task_inode_def
  by (intro confined_try_catch confined_convertFile) simp

lemma local_returns:
  "confined env n P \<Longrightarrow> always (\<lambda>a. \<forall>x. a \<noteq> Raise x) P \<Longrightarrow> \<exists>x. fst (local env P c) = Normal x"
  by (induction P arbitrary: c) (auto simp: case_prod_unfold)

lemma job_files_Cons:
  "n \<notin> set ns \<Longrightarrow> length Ps = length ns \<Longrightarrow>
   job_files env (n # ns) (P # Ps) f
     = job_files env ns Ps (f(n := fst (snd (local env P (f n)))))"
proof
  fix x
  assume n: "n \<notin> set ns" and len: "length Ps = length ns"
  show "job_files env (n # ns) (P # Ps) f x
          = job_files env ns Ps (f(n := fst (snd (local env P (f n))))) x"
  proof (cases "x = n")
    case True
    with n len have "map_of (zip ns Ps) x = None" by (simp add: map_of_zip_is_None)
    with True show ?thesis by (simp add: job_files_def)
  next
    case False
    then show ?thesis by (simp add: job_files_def split: option.splits)
  qed
qed

lemma job_events_Cons:
  assumes "n \<notin> set ns"
  shows "job_events env (n # ns) (P # Ps) f
           = mset (snd (snd (local env P (f n)))) + job_events env ns Ps (f(n := c))"
proof -
  have *: "map (\<lambda>(m, Q). mset (snd (snd (local env Q ((f(n := c)) m))))) (zip ns Ps)
        = map (\<lambda>(m, Q). mset (snd (snd (local env Q (f m))))) (zip ns Ps)"
    by (rule map_cong) (use assms in \<open>auto dest: set_zip_leftD\<close>)
  show ?thesis unfolding job_events_def * by simp
qed

lemma sum_list_empty_mset:
  "(\<And>x. x \<in> set xs \<Longrightarrow> x = {#}) \<Longrightarrow> sum_list xs = ({#} :: 'a multiset)"
  by (induction xs) auto

lemma exec_sequential_plan:
  assumes "plan P n = (r, evs, ts)" "r \<noteq> Needs_threads" "distinct (map (task_inode env) ts)"
  shows "fst (exec env (sequential env P n) w) = r
       \<and> files (snd (exec env (sequential env P n) w))
           = job_files env (map (task_inode env) ts) (map (task_body env) ts) (files w)
       \<and> mset (trace (snd (exec env (sequential env P n) w)))
           = mset (trace w) + mset evs
             + job_events env (map (task_inode env) ts) (map (task_body env) ts) (files w)"
  using assms
proof (induction P arbitrary: n w r evs ts)
  case (Return x)
  then show ?case by (auto simp: job_files_def job_events_def)
next
  case (Throw e)
  then show ?case by (auto simp: job_files_def job_events_def)
next
  case (Log l m k)
  from Log.prems(1) obtain evs0 where k: "plan k n = (r, evs0, ts)" and evs: "evs = Logged l m # evs0"
    by (auto split: prod.splits)
  from Log.IH [OF k Log.prems(2,3), of "emit (Logged l m) w"] evs
  show ?case by simp
next
  case (Open_in p k)
  then show ?case by simp
next
  case (Open_out p k)
  then show ?case by simp
next
  case (Write p d k)
  then show ?case by simp
next
  case (Async t k)
  from Async.prems(1) obtain rest where k: "plan (k n) (Suc n) = (r, evs, rest)"
    and ts: "ts = t # rest"
    by (auto split: prod.splits)
  let ?n = "task_inode env t"
  obtain r1 c1 evs1 where l: "local env (task_body env t) (files w ?n) = (r1, c1, evs1)"
    by (cases "local env (task_body env t) (files w ?n)")
  from local_returns [OF confined_task_body no_raise_task_body, of env t "files w ?n"] l
  have r1: "r1 = Normal ()" by auto
  let ?w1 = "\<lparr>files = (files w)(?n := c1), trace = trace w @ evs1\<rparr>"
  have e: "exec env (task_body env t) w = (Normal (), ?w1)"
    using exec_local [OF confined_task_body, of env t w] l r1 by simp
  from Async.prems(3) ts have d: "distinct (map (task_inode env) rest)"
    and n: "?n \<notin> set (map (task_inode env) rest)" by simp_all
  note IH = Async.IH [OF rangeI k Async.prems(2) d, where w = ?w1]
  have s: "exec env (sequential env (Async t k) n) w = exec env (sequential env (k n) (Suc n)) ?w1"
    by (simp add: exec_bind e)
  show ?case
    unfolding s ts
    using IH l job_files_Cons [OF n, of "map (task_body env) rest" env "task_body env t" "files w"]
      job_events_Cons [OF n, of env "task_body env t" "map (task_body env) rest" "files w" c1]
    by (simp add: ac_simps del: fun_upd_apply)
next
  case (Get h k)
  from Get.prems(1) have "plan (k None) n = (r, evs, ts)" by simp
  from Get.IH [OF rangeI this Get.prems(2,3)] show ?case by simp
qed

lemma on_plan_start:
  assumes "plan main (Suc 0) = (r, evs, ts)"
  shows "on_plan env ts
           (r, job_files env (map (task_inode env) ts) (map (task_body env) ts) (files w),
            mset (trace w) + mset evs
            + job_events env (map (task_inode env) ts) (map (task_body env) ts) (files w))
           (start main w)"
  by (rule on_planI [where main = main and running = "[]" and r = r and evs = evs])
     (use assms in \<open>simp_all add: jobs_def confined_task_body no_raise_task_body\<close>)

lemma local_ended: "ended P \<Longrightarrow> local env P c = (fst (local env P c), c, [])"
  by (cases P) auto

lemma on_plan_complete:
  assumes "on_plan env ts final pl" "complete pl"
  shows "final = (main_result pl, files (shared pl), mset (trace (shared pl)))"
proof -
  from assms(1) obtain main running r evs where
    th: "threads pl = main # running"
    and len: "length running \<le> length ts"
    and pl: "plan main (Suc (length running)) = (r, evs, drop (length running) ts)"
    and fin: "final = (r, job_files env (map (task_inode env) ts) (jobs env ts running) (files (shared pl)),
                  mset (trace (shared pl)) + mset evs
                  + job_events env (map (task_inode env) ts) (jobs env ts running)
                      (files (shared pl)))"
    by (auto elim!: on_planE)
  from assms(2) th have em: "ended main" and er: "\<And>P. P \<in> set running \<Longrightarrow> ended P"
    by (auto simp: complete_def list_all_iff)
  from em pl have r: "r = main_result pl" and evs: "evs = []" and dr: "drop (length running) ts = []"
    using th by (cases main; simp add: main_result_def)+
  from dr len have j: "jobs env ts running = running" by (simp add: jobs_def)
  have "job_files env (map (task_inode env) ts) running (files (shared pl)) = files (shared pl)"
  proof
    fix x
    show "job_files env (map (task_inode env) ts) running (files (shared pl)) x = files (shared pl) x"
    proof (cases "map_of (zip (map (task_inode env) ts) running) x")
      case None
      then show ?thesis by (simp add: job_files_def)
    next
      case (Some P)
      then have "P \<in> set running" by (auto dest!: map_of_SomeD set_zip_rightD)
      from local_ended [OF er [OF this], of env "files (shared pl) x"] Some
      show ?thesis by (simp add: job_files_def) (metis fst_conv snd_conv)
    qed
  qed
  moreover have "job_events env (map (task_inode env) ts) running (files (shared pl)) = {#}"
  proof -
    have "mset (snd (snd (local env P c))) = {#}" if "P \<in> set running" for P c
      using local_ended [OF er [OF that], of env c] by (metis mset.simps(1) snd_conv)
    then show ?thesis
      unfolding job_events_def
      by (intro sum_list_empty_mset) (auto dest: set_zip_rightD)
  qed
  ultimately show ?thesis using fin r evs j by simp
qed


subsection \<open>The plan of the concurrent scheduler\<close>

lemma plan_get_all: "plan (get_all futures) n = (Normal (), [], [])"
  by (induction futures) auto

lemma plan_destroy [simp]: "plan (destroy futures k) n = plan k n"
  by (induction futures) auto

lemma plan_convert_entries:
  "\<exists>r evs. plan (bind (convert_entries env es m sf ff futures) get_all) n
             = (r, evs,
                map (\<lambda>(p, regular). \<lparr>t_path = p, t_to = m, t_filter = sf\<rparr>)
                  (filter (\<lambda>(p, regular). regular \<and> accepted env (filename p) ff)
                     (entries es)))
           \<and> r \<noteq> Needs_threads"
proof (induction es arbitrary: futures n)
  case End
  show ?case by (simp add: plan_get_all)
next
  case (Iterator_error msg)
  show ?case by simp
next
  case (Entry p status es)
  let ?ts = "map (\<lambda>(p, regular). \<lparr>t_path = p, t_to = m, t_filter = sf\<rparr>)
               (filter (\<lambda>(p, regular). regular \<and> accepted env (filename p) ff) (entries es))"
  show ?case
  proof (cases status)
    case (Inl msg)
    then show ?thesis by simp
  next
    case (Inr regular)
    show ?thesis
    proof (cases regular)
      case False
      from Entry.IH [of futures n] obtain r evs where
        "plan (bind (convert_entries env es m sf ff futures) get_all) n = (r, evs, ?ts)"
        "r \<noteq> Needs_threads" by blast
      then show ?thesis using Inr False by simp
    next
      case True
      from shouldProcessFile_shape [of env "filename p" ff]
      consider
        (yes) "accepted env (filename p) ff" "shouldProcessFile env (filename p) ff = Return True"
        | (no) msg where "\<not> accepted env (filename p) ff"
            "shouldProcessFile env (filename p) ff = Log WARN msg (Return False)"
        | (bad) msg e where "\<forall>n'. \<not> accepted env n' ff"
            "shouldProcessFile env (filename p) ff = Log ERROR msg (Throw e)"
        by blast
      then show ?thesis
      proof cases
        case yes
        from Entry.IH [of "futures @ [n]" "Suc n"] obtain r evs where
          "plan (bind (convert_entries env es m sf ff (futures @ [n])) get_all) (Suc n) = (r, evs, ?ts)"
          "r \<noteq> Needs_threads" by blast
        then show ?thesis using Inr True yes by simp
      next
        case no
        from Entry.IH [of futures n] obtain r evs where
          "plan (bind (convert_entries env es m sf ff futures) get_all) n = (r, evs, ?ts)"
          "r \<noteq> Needs_threads" by blast
        then show ?thesis using Inr True no by simp
      next
        case bad
        then have "filter (\<lambda>(p, regular). regular \<and> accepted env (filename p) ff) (entries es) = []"
          by (auto simp: filter_empty_conv)
        then show ?thesis using Inr True bad by simp
      qed
    qed
  qed
qed

lemma plan_convert:
  assumes "is_directory env path = Inr True" "to \<noteq> []"
  shows "\<exists>r evs. plan (convert env path to sf ff) (Suc 0)
             = (r, evs,
                map (\<lambda>(p, regular). \<lparr>t_path = p, t_to = normalize_spec to, t_filter = sf\<rparr>)
                  (filter (\<lambda>(p, regular). regular \<and> accepted env (filename p) ff)
                     (entries (recursive_directory_iterator env path))))
           \<and> r \<noteq> Needs_threads"
proof -
  from plan_convert_entries [of env "recursive_directory_iterator env path" "normalize_spec to"
      sf ff "[]" "Suc 0"]
  obtain r evs where
    "plan (bind (convert_entries env (recursive_directory_iterator env path) (normalize_spec to)
             sf ff []) get_all) (Suc 0)
       = (r, evs,
          map (\<lambda>(p, regular). \<lparr>t_path = p, t_to = normalize_spec to, t_filter = sf\<rparr>)
            (filter (\<lambda>(p, regular). regular \<and> accepted env (filename p) ff)
               (entries (recursive_directory_iterator env path))))"
    "r \<noteq> Needs_threads" by blast
  then show ?thesis
    using assms mapEncodingName_shape [of to]
    by (auto simp: convert_def normalize_spec_empty)
qed

text \<open>
  C2, as amended. When the regular entries of the directory that pass the filename filter
  are files of their own, no two of them the same file under two names, every run of
  \<open>convert\<close> that has ended, under whatever schedule, ends as \<open>convert_single\<close> does,
  leaves the same content in every file and has added the same events to the trace, each
  as many times, in an order that may differ; and a schedule under which the run ends
  exists.
\<close>

theorem convert_agrees_with_convert_single:
  "(is_directory env path = Inr True \<longrightarrow>
      distinct (map (\<lambda>(p, regular). inode_of env p)
                 (filter (\<lambda>(p, regular). regular \<and> accepted env (filename p) ff)
                    (entries (recursive_directory_iterator env path)))))
   \<longrightarrow> (\<exists>sch. complete (run_schedule env sch (start (convert env path to sf ff) w)))
     \<and> (\<forall>sch. complete (run_schedule env sch (start (convert env path to sf ff) w)) \<longrightarrow>
          main_result (run_schedule env sch (start (convert env path to sf ff) w))
            = fst (exec env (convert_single env path to sf ff) w)
          \<and> files (shared (run_schedule env sch (start (convert env path to sf ff) w)))
            = files (snd (exec env (convert_single env path to sf ff) w))
          \<and> mset (trace (shared (run_schedule env sch (start (convert env path to sf ff) w))))
            = mset (trace (snd (exec env (convert_single env path to sf ff) w))))"
proof (intro impI conjI allI)
  show "\<exists>sch. complete (run_schedule env sch (start (convert env path to sf ff) w))"
    using convert_can_be_drained [of env "[]" path to sf ff w] by simp
next
  fix sch
  let ?pl = "run_schedule env sch (start (convert env path to sf ff) w)"
  let ?single = "convert_single env path to sf ff"
  assume links: "is_directory env path = Inr True \<longrightarrow>
      distinct (map (\<lambda>(p, regular). inode_of env p)
                 (filter (\<lambda>(p, regular). regular \<and> accepted env (filename p) ff)
                    (entries (recursive_directory_iterator env path))))"
    and c: "complete ?pl"
  have "main_result ?pl = fst (exec env ?single w)
        \<and> files (shared ?pl) = files (snd (exec env ?single w))
        \<and> mset (trace (shared ?pl)) = mset (trace (snd (exec env ?single w)))"
  proof (cases "is_directory env path = Inr True \<and> to \<noteq> []")
    case False
    then have eq: "convert env path to sf ff = ?single"
      by (intro convert_without_tasks) auto
    from single_thread_run [of ?single env sch w, OF thread_free_convert_single] c
    show ?thesis by (simp add: eq prod_eq_iff)
  next
    case True
    let ?ts = "map (\<lambda>(p, regular). \<lparr>t_path = p, t_to = normalize_spec to, t_filter = sf\<rparr>)
                 (filter (\<lambda>(p, regular). regular \<and> accepted env (filename p) ff)
                    (entries (recursive_directory_iterator env path)))"
    from True plan_convert [of env path to sf ff] obtain r evs where
      p: "plan (convert env path to sf ff) (Suc 0) = (r, evs, ?ts)" and r: "r \<noteq> Needs_threads"
      by blast
    have "map (task_inode env) ?ts
          = map (\<lambda>(p, regular). inode_of env p)
              (filter (\<lambda>(p, regular). regular \<and> accepted env (filename p) ff)
                 (entries (recursive_directory_iterator env path)))"
      by (simp add: task_inode_def case_prod_unfold comp_def)
    moreover from links True have "distinct (map (\<lambda>(p, regular). inode_of env p)
              (filter (\<lambda>(p, regular). regular \<and> accepted env (filename p) ff)
                 (entries (recursive_directory_iterator env path))))" by blast
    ultimately have d: "distinct (map (task_inode env) ?ts)" by (simp only:)
    let ?final = "(r, job_files env (map (task_inode env) ?ts) (map (task_body env) ?ts) (files w),
            mset (trace w) + mset evs
            + job_events env (map (task_inode env) ?ts) (map (task_body env) ?ts) (files w))"
    have "on_plan env ?ts ?final ?pl"
      by (rule on_plan_run_schedule [OF d _ on_plan_start [OF p]]) (simp add: r)
    from on_plan_complete [OF this c] exec_sequential_plan [OF p r d, of w]
    show ?thesis by (simp add: sequential_convert)
  qed
  then show "main_result ?pl = fst (exec env ?single w)"
    "files (shared ?pl) = files (snd (exec env ?single w))"
    "mset (trace (shared ?pl)) = mset (trace (snd (exec env ?single w)))"
    by simp_all
qed

lemma ex_concurrent_run:
  "run_schedule ex_env [0, 0, 0, 0, 0, 2, 1, 2, 1, 1, 2, 1, 2, 0, 0]
     (start (convert ex_env ''d'' ''UTF-8'' [] []) ex_world)
   = \<lparr>threads = [Return (), Return (), Return ()],
      shared =
        \<lparr>files = [1 \<mapsto> ''hello'', 2 \<mapsto> ''world''],
         trace =
           [Logged INFO ''Target Encoding Mapped: UTF-8'',
            Logged INFO ''Processing directory: d'',
            Logged WARN ''Skipping non-regular file: d/sub'',
            Opened_in ''d/b.md'', Opened_in ''d/a.txt'', Opened_out ''d/b.md'',
            Opened_out ''d/a.txt'', Wrote ''d/a.txt'' ''hello'', Wrote ''d/b.md'' ''world'',
            Logged INFO ''d/a.txt | ASCII -> UTF-8'',
            Logged INFO ''d/b.md | ASCII -> UTF-8'']\<rparr>\<rparr>"
  by (simp add: convert_def task_body_def pool_step_def start_def ex_env_def
      shouldProcessFile_def convertFile_def detectEncoding_def convertEncoding_def ex_world_def
      emit_def open_out_def write_out_def mapEncodingName_def Let_def fun_upd_twist)

theorem convert_agrees_with_convert_single_witness:
  "distinct (map (\<lambda>(p, regular). inode_of ex_env p)
              (filter (\<lambda>(p, regular). regular \<and> accepted ex_env (filename p) [])
                 (entries (recursive_directory_iterator ex_env ''d''))))
   \<and> complete (run_schedule ex_env [0, 0, 0, 0, 0, 2, 1, 2, 1, 1, 2, 1, 2, 0, 0]
                 (start (convert ex_env ''d'' ''UTF-8'' [] []) ex_world))
   \<and> fst (exec ex_env (convert_single ex_env ''d'' ''UTF-8'' [] []) ex_world) = Normal ()
   \<and> files (snd (exec ex_env (convert_single ex_env ''d'' ''UTF-8'' [] []) ex_world))
       = [1 \<mapsto> ''hello'', 2 \<mapsto> ''world'']
   \<and> mset (trace (snd (exec ex_env (convert_single ex_env ''d'' ''UTF-8'' [] []) ex_world)))
       = mset [Logged INFO ''Target Encoding Mapped: UTF-8'',
               Logged INFO ''Processing directory: d'',
               Logged WARN ''Skipping non-regular file: d/sub'',
               Opened_in ''d/b.md'', Opened_in ''d/a.txt'', Opened_out ''d/b.md'',
               Opened_out ''d/a.txt'', Wrote ''d/a.txt'' ''hello'', Wrote ''d/b.md'' ''world'',
               Logged INFO ''d/a.txt | ASCII -> UTF-8'',
               Logged INFO ''d/b.md | ASCII -> UTF-8'']"
proof -
  have d: "distinct (map (\<lambda>(p, regular). inode_of ex_env p)
              (filter (\<lambda>(p, regular). regular \<and> accepted ex_env (filename p) [])
                 (entries (recursive_directory_iterator ex_env ''d''))))"
    by (simp add: ex_env_def accepted_def)
  have c: "complete (run_schedule ex_env [0, 0, 0, 0, 0, 2, 1, 2, 1, 1, 2, 1, 2, 0, 0]
                 (start (convert ex_env ''d'' ''UTF-8'' [] []) ex_world))"
    unfolding ex_concurrent_run by (simp add: complete_def)
  from convert_agrees_with_convert_single
         [where env = ex_env and path = "''d''" and to = "''UTF-8''" and sf = "[]"
            and ff = "[]" and w = ex_world] d c
  have "main_result (run_schedule ex_env [0, 0, 0, 0, 0, 2, 1, 2, 1, 1, 2, 1, 2, 0, 0]
                 (start (convert ex_env ''d'' ''UTF-8'' [] []) ex_world))
            = fst (exec ex_env (convert_single ex_env ''d'' ''UTF-8'' [] []) ex_world)
          \<and> files (shared (run_schedule ex_env [0, 0, 0, 0, 0, 2, 1, 2, 1, 1, 2, 1, 2, 0, 0]
                 (start (convert ex_env ''d'' ''UTF-8'' [] []) ex_world)))
            = files (snd (exec ex_env (convert_single ex_env ''d'' ''UTF-8'' [] []) ex_world))
          \<and> mset (trace (shared (run_schedule ex_env [0, 0, 0, 0, 0, 2, 1, 2, 1, 1, 2, 1, 2, 0, 0]
                 (start (convert ex_env ''d'' ''UTF-8'' [] []) ex_world))))
            = mset (trace (snd (exec ex_env (convert_single ex_env ''d'' ''UTF-8'' [] []) ex_world)))"
    by blast
  then show ?thesis
    using d c unfolding ex_concurrent_run by (simp add: main_result_def)
qed

text \<open>
  The claim C2 as stated fails in a directory where two names are hard links to one
  file. \<open>convert_single\<close> converts the file under its first name and finds it converted
  under the second; under the schedule below both tasks of \<open>convert\<close> read the file
  before either writes it, and both report a conversion from GBK.
\<close>

theorem convert_linked_files_counterexample:
  "inode_of link_env ''d/a.txt'' = inode_of link_env ''d/b.txt''
   \<and> complete (run_schedule link_env [0, 0, 0, 0, 1, 2, 1, 1, 1, 2, 2, 2, 0, 0]
                 (start (convert link_env ''d'' ''UTF-8'' [] []) link_world))
   \<and> Logged INFO ''d/b.txt | GBK -> UTF-8''
       \<in> set (trace (shared (run_schedule link_env [0, 0, 0, 0, 1, 2, 1, 1, 1, 2, 2, 2, 0, 0]
                               (start (convert link_env ''d'' ''UTF-8'' [] []) link_world))))
   \<and> Logged INFO ''d/b.txt | GBK -> UTF-8''
       \<notin> set (trace (snd (exec link_env (convert_single link_env ''d'' ''UTF-8'' [] [])
                            link_world)))
   \<and> Logged INFO ''d/b.txt | UTF-8 -> UTF-8''
       \<in> set (trace (snd (exec link_env (convert_single link_env ''d'' ''UTF-8'' [] [])
                            link_world)))"
  by (simp add: convert_def convert_single_def exec_bind exec_try_catch task_body_def
      pool_step_def start_def complete_def link_env_def shouldProcessFile_def convertFile_def
      detectEncoding_def convertEncoding_def link_world_def emit_def open_out_def
      write_out_def mapEncodingName_def Let_def)


subsection \<open>The calling thread waits for every task\<close>

lemma task_failed_initial:
  assumes "take 26 m = ''Asynchronous task failed: ''"
  shows "take (Suc 0) m = ''A''"
proof -
  have "take (Suc 0) (take 26 m) = take (Suc 0) m" by (simp add: min_def)
  with assms show ?thesis by simp
qed

lemma quiet_task_body:
  "always (\<lambda>a. case a of Act e \<Rightarrow> \<not> task_failed e | Spawn t \<Rightarrow> True | Raise x \<Rightarrow> False)
     (task_body env t)"
  by (intro always_task_body) (auto dest: task_failed_initial)

lemma joined_pool_step:
  assumes "joined pl"
  shows "joined (pool_step env i pl)"
proof (cases "i < length (threads pl)")
  case False
  then show ?thesis using assms by (simp add: pool_step_def)
next
  case i: True
  let ?T = "\<lambda>a. case a of Act e \<Rightarrow> \<not> task_failed e | Spawn t \<Rightarrow> True | Raise x \<Rightarrow> False"
  from assms have ne: "threads pl \<noteq> []"
    and j: "joins (threads pl ! 0) (length (threads pl))"
    and c: "calm (threads pl ! 0)"
    and tf: "\<And>j. 0 < j \<Longrightarrow> j < length (threads pl) \<Longrightarrow> thread_free (threads pl ! j)"
    and q: "\<And>j. 0 < j \<Longrightarrow> j < length (threads pl) \<Longrightarrow> always ?T (threads pl ! j)"
    and aw: "\<And>j. 0 < j \<Longrightarrow> j < length (threads pl)
              \<Longrightarrow> ended (threads pl ! j) \<or> awaits j (threads pl ! 0)"
    by (simp_all add: joined_def)
  show ?thesis
  proof (cases "i = 0")
    case True
    show ?thesis
    proof (cases "threads pl ! 0")
      case (Get h k)
      show ?thesis
      proof (cases "h < length (threads pl) \<and> ended (threads pl ! h)")
        case False
        then have "pool_step env i pl = pl"
          using True Get by (cases "threads pl ! h") (auto simp: pool_step_def)
        then show ?thesis using assms by simp
      next
        case e: True
        then have h: "0 < h" using Get by (cases h) auto
        from q [OF h] e obtain x where "threads pl ! h = Return x"
          by (cases "threads pl ! h") auto
        then have "pool_step env i pl = \<lparr>threads = (threads pl)[0 := k None], shared = shared pl\<rparr>"
          using True Get ne e by (auto simp: pool_step_def)
        moreover have "ended (threads pl ! j) \<or> awaits j (k None)"
          if "0 < j" "j < length (threads pl)" for j
          using aw [OF that] Get e by auto
        ultimately show ?thesis using j c Get ne tf q by (auto simp: joined_def)
      qed
    next
      case (Async t k)
      have "pool_step env i pl =
          \<lparr>threads = (threads pl)[0 := k (length (threads pl))] @ [task_body env t],
           shared = shared pl\<rparr>"
        using True Async ne by (simp add: pool_step_def)
      moreover have "ended (threads pl ! j) \<or> awaits j (k (length (threads pl)))"
        if "0 < j" "j < length (threads pl)" for j
        using aw [OF that] Async by auto
      ultimately show ?thesis
        using j c Async ne tf q thread_free_task_body [of env t] quiet_task_body [of env t]
        by (auto simp: joined_def nth_append less_Suc_eq)
    next
      case (Log l m k)
      have "ended (threads pl ! j) \<or> awaits j k"
        if "0 < j" "j < length (threads pl)" for j
        using aw [OF that] Log by auto
      then show ?thesis
        using True Log j c ne tf q by (auto simp: pool_step_def joined_def)
    next
      case (Open_in p k)
      have "ended (threads pl ! j) \<or> awaits j (k c)"
        if "0 < j" "j < length (threads pl)" for j c
        using aw [OF that] Open_in by auto
      then show ?thesis
        using True Open_in j c ne tf q by (auto simp: pool_step_def joined_def)
    next
      case (Open_out p k)
      have "ended (threads pl ! j) \<or> awaits j (k c)"
        if "0 < j" "j < length (threads pl)" for j c
        using aw [OF that] Open_out by auto
      then show ?thesis
        using True Open_out j c ne tf q by (auto simp: pool_step_def joined_def)
    next
      case (Write p d k)
      have "ended (threads pl ! j) \<or> awaits j k"
        if "0 < j" "j < length (threads pl)" for j
        using aw [OF that] Write by auto
      then show ?thesis
        using True Write j c ne tf q by (auto simp: pool_step_def joined_def)
    qed (use True assms in \<open>auto simp: pool_step_def\<close>)
  next
    case False
    then have P: "thread_free (threads pl ! i)" and Q: "always ?T (threads pl ! i)"
      using tf q i by simp_all
    show ?thesis
    proof (cases "threads pl ! i")
      case (Log l m k)
      with aw [of i] i False have "awaits i (threads pl ! 0)" by simp
      with Log show ?thesis using P Q i False ne j c tf q aw
        by (auto simp: pool_step_def joined_def nth_list_update)
    next
      case (Open_in p k)
      with aw [of i] i False have "awaits i (threads pl ! 0)" by simp
      with Open_in show ?thesis using P Q i False ne j c tf q aw
        by (auto simp: pool_step_def joined_def nth_list_update)
    next
      case (Open_out p k)
      with aw [of i] i False have "awaits i (threads pl ! 0)" by simp
      with Open_out show ?thesis using P Q i False ne j c tf q aw
        by (auto simp: pool_step_def joined_def nth_list_update)
    next
      case (Write p d k)
      with aw [of i] i False have "awaits i (threads pl ! 0)" by simp
      with Write show ?thesis using P Q i False ne j c tf q aw
        by (auto simp: pool_step_def joined_def nth_list_update)
    qed (use P i assms in \<open>simp_all add: pool_step_def\<close>)
  qed
qed

lemma joined_pool_step_events:
  assumes "joined pl"
  shows "\<exists>evs. trace (shared (pool_step env i pl)) = trace (shared pl) @ evs
               \<and> (\<forall>e\<in>set evs. \<not> task_failed e)"
proof (cases "i < length (threads pl)")
  case False
  then show ?thesis by (simp add: pool_step_def)
next
  case i: True
  let ?T = "\<lambda>a. case a of Act e \<Rightarrow> \<not> task_failed e | Spawn t \<Rightarrow> True | Raise x \<Rightarrow> False"
  have A: "calm (threads pl ! i) \<or> always ?T (threads pl ! i)"
    using assms i by (cases "i = 0") (auto simp: joined_def)
  show ?thesis
  proof (cases "threads pl ! i")
    case (Get h k)
    then show ?thesis using i
      by (cases "threads pl ! h") (auto simp: pool_step_def)
  qed (use A i in \<open>auto simp: pool_step_def\<close>)
qed

lemma joined_run_schedule:
  assumes "joined pl"
  shows "joined (run_schedule env sch pl)
       \<and> (\<exists>evs. trace (shared (run_schedule env sch pl)) = trace (shared pl) @ evs
               \<and> (\<forall>e\<in>set evs. \<not> task_failed e))"
  using assms
proof (induction sch arbitrary: pl)
  case Nil
  then show ?case by simp
next
  case (Cons i sch)
  from joined_pool_step_events [OF Cons.prems, of env i]
  obtain evs1 where 1: "trace (shared (pool_step env i pl)) = trace (shared pl) @ evs1"
    "\<forall>e\<in>set evs1. \<not> task_failed e" by blast
  from Cons.IH [OF joined_pool_step [OF Cons.prems, of env i]]
  obtain evs2 where 2: "joined (run_schedule env sch (pool_step env i pl))"
    "trace (shared (run_schedule env sch (pool_step env i pl)))
       = trace (shared (pool_step env i pl)) @ evs2"
    "\<forall>e\<in>set evs2. \<not> task_failed e" by blast
  show ?case using 1 2 by (auto intro!: exI [of _ "evs1 @ evs2"])
qed

lemma joined_complete:
  assumes "joined pl" "ended (threads pl ! 0)"
  shows "complete pl"
proof -
  from assms(2) have "\<not> awaits j (threads pl ! 0)" for j
    by (cases "threads pl ! 0") auto
  with assms show ?thesis
    unfolding complete_def list_all_length joined_def
    by (metis gr0I)
qed

lemma awaits_get_all: "h \<in> set futures \<Longrightarrow> awaits h (get_all futures)"
  by (induction futures) (auto split: option.splits)

lemma joins_get_all: "joins (get_all futures) n"
  by (induction futures) (auto split: option.splits)

lemma calm_get_all: "calm (get_all futures)"
  by (induction futures) auto

lemma awaits_destroy: "h \<in> set futures \<Longrightarrow> awaits h (destroy futures k)"
  by (induction futures) auto

lemma joins_destroy [simp]: "joins (destroy futures k) n = joins k n"
  by (induction futures) auto

lemma calm_destroy [simp]: "calm (destroy futures k) = calm k"
  by (induction futures) auto

lemma thread_free_joins: "thread_free P \<Longrightarrow> joins P n"
  by (induction P arbitrary: n) auto

lemma thread_free_calm:
  "thread_free P \<Longrightarrow> always (\<lambda>a. case a of Act e \<Rightarrow> \<not> task_failed e | _ \<Rightarrow> True) P \<Longrightarrow> calm P"
  by (induction P) auto

lemma not_task_failed_shouldProcessFile:
  "shouldProcessFile env n ff = Log l m k \<Longrightarrow> \<not> task_failed (Logged l m)"
  by (auto simp: shouldProcessFile_def Let_def split: sum.splits if_splits)

lemma awaits_convert_entries:
  "h \<in> set futures \<Longrightarrow> awaits h (bind (convert_entries env es m sf ff futures) get_all)"
proof (induction es arbitrary: futures)
  case End
  then show ?case by (simp add: awaits_get_all)
next
  case (Iterator_error msg)
  then show ?case by (simp add: awaits_destroy)
next
  case (Entry p status es)
  show ?case
  proof (cases status)
    case (Inl msg)
    then show ?thesis using Entry.prems by (simp add: awaits_destroy)
  next
    case (Inr regular)
    show ?thesis
    proof (cases regular)
      case False
      then show ?thesis using Inr Entry by simp
    next
      case True
      from shouldProcessFile_shape [of env "filename p" ff]
      consider
        (yes) "shouldProcessFile env (filename p) ff = Return True"
        | (no) msg where "shouldProcessFile env (filename p) ff = Log WARN msg (Return False)"
        | (bad) msg e where "shouldProcessFile env (filename p) ff = Log ERROR msg (Throw e)"
        by blast
      then show ?thesis
      proof cases
        case yes
        then show ?thesis using Inr True Entry by simp
      next
        case no
        then show ?thesis using Inr True Entry by simp
      next
        case bad
        then show ?thesis using Inr True Entry.prems by (simp add: awaits_destroy)
      qed
    qed
  qed
qed

lemma joins_convert_entries:
  "joins (bind (convert_entries env es m sf ff futures) get_all) n
   \<and> calm (bind (convert_entries env es m sf ff futures) get_all)"
proof (induction es arbitrary: futures n)
  case End
  then show ?case by (simp add: joins_get_all calm_get_all)
next
  case (Iterator_error msg)
  then show ?case by simp
next
  case (Entry p status es)
  show ?case
  proof (cases status)
    case (Inl msg)
    then show ?thesis by simp
  next
    case (Inr regular)
    show ?thesis
    proof (cases regular)
      case False
      then show ?thesis using Inr Entry by simp
    next
      case True
      have A: "awaits h (bind (convert_entries env es m sf ff (fs @ [h])) get_all)" for h fs
        by (rule awaits_convert_entries) simp
      from shouldProcessFile_shape [of env "filename p" ff]
      consider
        (yes) "shouldProcessFile env (filename p) ff = Return True"
        | (no) msg where "shouldProcessFile env (filename p) ff = Log WARN msg (Return False)"
        | (bad) msg e where "shouldProcessFile env (filename p) ff = Log ERROR msg (Throw e)"
        by blast
      then show ?thesis
      proof cases
        case yes
        then show ?thesis using Inr True Entry A by simp
      next
        case no
        then show ?thesis
          using Inr True Entry not_task_failed_shouldProcessFile [OF no] by simp
      next
        case bad
        then show ?thesis
          using Inr True not_task_failed_shouldProcessFile [OF bad] by simp
      qed
    qed
  qed
qed

lemma joins_convert:
  "joins (convert env path to sf ff) (Suc 0) \<and> calm (convert env path to sf ff)"
proof (cases "is_directory env path = Inr True \<and> to \<noteq> []")
  case False
  then have eq: "convert env path to sf ff = convert_single env path to sf ff"
    by (intro convert_without_tasks) auto
  have "always (\<lambda>a. case a of Act e \<Rightarrow> \<not> task_failed e | _ \<Rightarrow> True)
          (convert_single env path to sf ff)"
    by (intro always_convert_single always_task_body) (auto dest: task_failed_initial)
  then show ?thesis
    unfolding eq
    by (simp add: thread_free_joins thread_free_calm thread_free_convert_single)
next
  case True
  then show ?thesis
    using mapEncodingName_shape [of to] joins_convert_entries
    by (auto simp: convert_def normalize_spec_empty mapEncodingName_def Let_def
        split: if_splits)
qed

lemma convert_joined:
  "joined (run_schedule env sch (start (convert env path to sf ff) w))"
  "\<exists>evs. trace (shared (run_schedule env sch (start (convert env path to sf ff) w)))
           = trace w @ evs \<and> (\<forall>e\<in>set evs. \<not> task_failed e)"
  using joined_run_schedule [of "start (convert env path to sf ff) w" env sch] joins_convert
  by (simp_all add: joined_def)

subsection \<open>How a run ends\<close>

lemma exec_task_body_normal: "fst (exec env (task_body env t) w) = Normal ()"
proof -
  obtain r w' where e: "exec env (task_body env t) w = (r, w')"
    by (cases "exec env (task_body env t) w")
  from always_exec [OF no_raise_task_body e]
    thread_free_exec [of "task_body env t" env w] thread_free_task_body [of env t]
  show ?thesis using e by (cases r) auto
qed

lemma exec_sequential_result:
  "fst (plan P n) \<noteq> Needs_threads \<Longrightarrow> fst (exec env (sequential env P n) w) = fst (plan P n)"
proof (induction P arbitrary: n w)
  case (Async t k)
  obtain w' where e: "exec env (task_body env t) w = (Normal (), w')"
    using exec_task_body_normal [of env t w] by (cases "exec env (task_body env t) w") auto
  from Async.prems have "fst (plan (k n) (Suc n)) \<noteq> Needs_threads"
    by (simp split: prod.splits)
  from Async.IH [OF rangeI this, of w'] show ?case
    by (simp add: exec_bind e split: prod.splits)
next
  case (Get h k)
  from Get.prems have "fst (plan (k None) n) \<noteq> Needs_threads" by simp
  from Get.IH [OF rangeI this] show ?case by simp
qed (auto split: prod.splits)

lemma plan_pool_step:
  assumes "joined pl" "fst (plan (threads pl ! 0) (length (threads pl))) \<noteq> Needs_threads"
  shows "fst (plan (threads (pool_step env i pl) ! 0) (length (threads (pool_step env i pl))))
         = fst (plan (threads pl ! 0) (length (threads pl)))"
proof (cases "i < length (threads pl)")
  case False
  then show ?thesis by (simp add: pool_step_def)
next
  case i: True
  from assms(1) have ne: "threads pl \<noteq> []"
    and tf: "\<And>j. 0 < j \<Longrightarrow> j < length (threads pl) \<Longrightarrow> thread_free (threads pl ! j)"
    and q: "\<And>j. 0 < j \<Longrightarrow> j < length (threads pl) \<Longrightarrow>
              always (\<lambda>a. case a of Act e \<Rightarrow> \<not> task_failed e | Spawn t \<Rightarrow> True
                          | Raise x \<Rightarrow> False) (threads pl ! j)"
    by (simp_all add: joined_def)
  show ?thesis
  proof (cases "i = 0")
    case True
    show ?thesis
    proof (cases "threads pl ! 0")
      case (Get h k)
      show ?thesis
      proof (cases "h < length (threads pl) \<and> ended (threads pl ! h)")
        case False
        then have "pool_step env i pl = pl"
          using True Get by (cases "threads pl ! h") (auto simp: pool_step_def)
        then show ?thesis by simp
      next
        case e: True
        then have h: "0 < h" using Get by (cases h) auto
        from q [OF h] e obtain x where "threads pl ! h = Return x"
          by (cases "threads pl ! h") auto
        then have "pool_step env i pl = \<lparr>threads = (threads pl)[0 := k None], shared = shared pl\<rparr>"
          using True Get ne e by (auto simp: pool_step_def)
        then show ?thesis using Get ne by simp
      qed
    qed (use True ne assms(2) in \<open>auto simp: pool_step_def nth_append split: prod.splits\<close>)
  next
    case False
    from i have 0: "0 < length (threads pl)" by auto
    from tf [of i] False i have P: "thread_free (threads pl ! i)" by simp
    have "length (threads (pool_step env i pl)) = length (threads pl)"
      using P i by (cases "threads pl ! i") (simp_all add: pool_step_def)
    with pool_step_other [OF 0, of i env] False show ?thesis by simp
  qed
qed

lemma plan_run_schedule:
  assumes "joined pl" "fst (plan (threads pl ! 0) (length (threads pl))) \<noteq> Needs_threads"
  shows "fst (plan (threads (run_schedule env sch pl) ! 0)
                (length (threads (run_schedule env sch pl))))
         = fst (plan (threads pl ! 0) (length (threads pl)))"
  using assms
proof (induction sch arbitrary: pl)
  case Nil
  show ?case by simp
next
  case (Cons i sch)
  from plan_pool_step [OF Cons.prems, of env i] Cons.prems(2)
    Cons.IH [OF joined_pool_step [OF Cons.prems(1), of env i]]
  show ?case by simp
qed

lemma main_result_plan:
  "threads pl \<noteq> [] \<Longrightarrow> ended (threads pl ! 0) \<Longrightarrow> main_result pl = fst (plan (threads pl ! 0) n)"
  by (cases "threads pl"; cases "threads pl ! 0") (auto simp: main_result_def)

lemma convert_ends_as_convert_single:
  assumes "complete (run_schedule env sch (start (convert env path to sf ff) w))"
  shows "main_result (run_schedule env sch (start (convert env path to sf ff) w))
         = fst (exec env (convert_single env path to sf ff) w)"
proof (cases "is_directory env path = Inr True \<and> to \<noteq> []")
  case False
  then have eq: "convert env path to sf ff = convert_single env path to sf ff"
    by (intro convert_without_tasks) auto
  from single_thread_run [of "convert_single env path to sf ff" env sch w,
      OF thread_free_convert_single] assms
  show ?thesis by (simp add: eq prod_eq_iff)
next
  case True
  let ?pl = "run_schedule env sch (start (convert env path to sf ff) w)"
  from True plan_convert [of env path to sf ff]
  have r: "fst (plan (convert env path to sf ff) (Suc 0)) \<noteq> Needs_threads" by auto
  have j: "joined (start (convert env path to sf ff) w)"
    using joins_convert [of env path to sf ff] by (simp add: joined_def)
  from plan_run_schedule [OF j, of env sch] r
  have "fst (plan (threads ?pl ! 0) (length (threads ?pl)))
        = fst (plan (convert env path to sf ff) (Suc 0))" by simp
  moreover from convert_joined(1) [of env sch path to sf ff w] assms
  have "threads ?pl \<noteq> []" "ended (threads ?pl ! 0)"
    by (auto simp: joined_def complete_def list_all_length)
  ultimately have "main_result ?pl = fst (plan (convert env path to sf ff) (Suc 0))"
    using main_result_plan [of ?pl "length (threads ?pl)"] by simp
  with exec_sequential_result [OF r, of env w] show ?thesis
    by (simp add: sequential_convert)
qed

lemma exec_convert_single_entries_result:
  assumes "ff = [] \<or> \<not> malformed env (''^.*'' @ [backslash] @ ''.('' @ ff @ '')$'')"
  shows "fst (exec env (convert_single_entries env es m sf ff) w)
         = (case walk_error es of
              None \<Rightarrow> Normal ()
            | Some msg \<Rightarrow> Raised (Filesystem_error msg))"
proof (induction es arbitrary: w)
  case End
  show ?case by simp
next
  case (Iterator_error msg)
  show ?case by simp
next
  case (Entry p status es)
  show ?case
  proof (cases status)
    case (Inl msg)
    then show ?thesis by simp
  next
    case (Inr regular)
    show ?thesis
    proof (cases regular)
      case False
      then show ?thesis using Inr Entry.IH by simp
    next
      case True
      let ?job = "try_catch (convertFile env p m sf)
                    (\<lambda>e. Log ERROR (''Error converting '' @ p @ '': '' @ what e) (Return ()))"
      have job: "\<exists>w1. exec env ?job w' = (Normal (), w1)" for w'
        using exec_task_body_normal [of env "\<lparr>t_path = p, t_to = m, t_filter = sf\<rparr>" w']
        by (cases "exec env ?job w'") (simp add: task_body_def)
      from shouldProcessFile_shape [of env "filename p" ff] assms
      consider
        (yes) "shouldProcessFile env (filename p) ff = Return True"
        | (no) msg where "shouldProcessFile env (filename p) ff = Log WARN msg (Return False)"
        by blast
      then show ?thesis
      proof cases
        case yes
        from job [of w] obtain w1 where "exec env ?job w = (Normal (), w1)" by blast
        then show ?thesis using Inr True yes Entry.IH [of w1] by (simp add: exec_bind)
      next
        case no
        then show ?thesis using Inr True Entry.IH by simp
      qed
    qed
  qed
qed

lemma exec_convert_single_result:
  assumes "ff = [] \<or> \<not> malformed env (''^.*'' @ [backslash] @ ''.('' @ ff @ '')$'')"
    and "to \<noteq> []"
  shows "is_directory env path = Inr True \<Longrightarrow>
           fst (exec env (convert_single env path to sf ff) w)
           = (case walk_error (recursive_directory_iterator env path) of
                None \<Rightarrow> Normal ()
              | Some msg \<Rightarrow> Raised (Filesystem_error msg))"
    and "is_directory env path = Inr False \<Longrightarrow> is_regular_file env path = Inr True \<Longrightarrow>
           fst (exec env (convert_single env path to sf ff) w) = Normal ()"
proof -
  show "fst (exec env (convert_single env path to sf ff) w)
           = (case walk_error (recursive_directory_iterator env path) of
                None \<Rightarrow> Normal ()
              | Some msg \<Rightarrow> Raised (Filesystem_error msg))"
    if "is_directory env path = Inr True"
    using that assms(2)
    by (simp add: convert_single_def exec_bind exec_mapEncodingName normalize_spec_empty
        exec_convert_single_entries_result [OF assms(1)])
  let ?job = "try_catch (convertFile env path (normalize_spec to) sf)
                (\<lambda>e. Log ERROR (''Error converting '' @ path @ '': '' @ what e) (Return ()))"
  have job: "fst (exec env ?job w') = Normal ()" for w'
    using exec_task_body_normal
            [of env "\<lparr>t_path = path, t_to = normalize_spec to, t_filter = sf\<rparr>" w']
    by (simp add: task_body_def)
  from shouldProcessFile_shape [of env "filename path" ff] assms(1)
  consider
    (yes) "shouldProcessFile env (filename path) ff = Return True"
    | (no) msg where "shouldProcessFile env (filename path) ff = Log WARN msg (Return False)"
    by blast
  then show "fst (exec env (convert_single env path to sf ff) w) = Normal ()"
    if "is_directory env path = Inr False" "is_regular_file env path = Inr True"
    using that assms(2) job
    by cases
      (simp_all add: convert_single_def exec_bind exec_mapEncodingName normalize_spec_empty)
qed

text \<open>
  C3. A file job never ends with an exception, whatever it reads: an exception of
  \<open>convertFile\<close> is caught at the boundary of the job and logged as
  \<open>Error converting\<close>. Every run of \<open>convert\<close> can be continued until every thread has
  ended, and its calling thread ends only when every task it started has, also when it
  ends with an exception of the walk. Under every schedule no task ends with an exception
  and no \<open>Asynchronous task failed\<close> is logged, and the calling thread ends as
  \<open>convert_single\<close> does. In a run on a directory, with a target encoding and a
  well-formed filename filter, the only exception that ends the run is the
  \<open>filesystem_error\<close> of the walk, when there is one; and every regular entry that the
  walk reaches and the filter accepts is opened, whatever happened to the other files.
\<close>

theorem file_failures_stay_in_their_job:
  "always (\<lambda>a. \<forall>x. a \<noteq> Raise x) (task_body env t)
   \<and> (fst (exec env (convertFile env (t_path t) (t_to t) (t_filter t)) w) = Raised e \<longrightarrow>
        exec env (task_body env t) w =
          (Normal (),
           emit (Logged ERROR (''Error converting '' @ t_path t @ '': '' @ what e))
             (snd (exec env (convertFile env (t_path t) (t_to t) (t_filter t)) w))))
   \<and> (\<exists>rest. complete (run_schedule env (sch @ rest) (start (convert env path to sf ff) w)))
   \<and> (main_result (run_schedule env sch (start (convert env path to sf ff) w)) \<noteq> Needs_threads
        \<longrightarrow> complete (run_schedule env sch (start (convert env path to sf ff) w)))
   \<and> (\<forall>j. 0 < j
            \<and> j < length (threads (run_schedule env sch (start (convert env path to sf ff) w)))
          \<longrightarrow> (\<forall>x. threads (run_schedule env sch (start (convert env path to sf ff) w)) ! j
                    \<noteq> Throw x))
   \<and> (\<forall>x. Logged ERROR (''Asynchronous task failed: '' @ x)
           \<notin> set (new_events w
                    (shared (run_schedule env sch (start (convert env path to sf ff) w)))))
   \<and> (complete (run_schedule env sch (start (convert env path to sf ff) w)) \<longrightarrow>
        main_result (run_schedule env sch (start (convert env path to sf ff) w))
          = fst (exec env (convert_single env path to sf ff) w))
   \<and> (is_directory env path = Inr True \<and> to \<noteq> []
        \<and> (ff = [] \<or> \<not> malformed env (''^.*'' @ [backslash] @ ''.('' @ ff @ '')$'')) \<longrightarrow>
        fst (exec env (convert_single env path to sf ff) w)
          = (case walk_error (recursive_directory_iterator env path) of
               None \<Rightarrow> Normal ()
             | Some msg \<Rightarrow> Raised (Filesystem_error msg))
      \<and> (\<forall>p. (p, True) \<in> set (entries (recursive_directory_iterator env path))
              \<and> accepted env (filename p) ff \<longrightarrow>
            Opened_in p
              \<in> set (new_events w (snd (exec env (convert_single env path to sf ff) w)))
          \<and> (complete (run_schedule env sch (start (convert env path to sf ff) w)) \<longrightarrow>
               Opened_in p
                 \<in> set (new_events w
                          (shared (run_schedule env sch (start (convert env path to sf ff) w)))))))"
proof (intro conjI impI allI; (elim conjE)?)
  let ?single = "convert_single env path to sf ff"
  let ?pl = "run_schedule env sch (start (convert env path to sf ff) w)"
  show "always (\<lambda>a. \<forall>x. a \<noteq> Raise x) (task_body env t)" by (rule no_raise_task_body)
  show "exec env (task_body env t) w =
          (Normal (),
           emit (Logged ERROR (''Error converting '' @ t_path t @ '': '' @ what e))
             (snd (exec env (convertFile env (t_path t) (t_to t) (t_filter t)) w)))"
    if "fst (exec env (convertFile env (t_path t) (t_to t) (t_filter t)) w) = Raised e"
    using that
    by (cases "exec env (convertFile env (t_path t) (t_to t) (t_filter t)) w")
       (simp add: task_body_def exec_try_catch)
  show "\<exists>rest. complete (run_schedule env (sch @ rest) (start (convert env path to sf ff) w))"
    by (rule convert_can_be_drained)
  show "complete ?pl" if "main_result ?pl \<noteq> Needs_threads"
  proof (rule joined_complete [OF convert_joined(1)])
    from that show "ended (threads ?pl ! 0)"
      by (auto simp: main_result_def split: list.splits prog.splits)
  qed
  show "threads ?pl ! j \<noteq> Throw x" if "0 < j" "j < length (threads ?pl)" for j x
    using convert_joined(1) [of env sch path to sf ff w] that by (auto simp: joined_def)
  show "Logged ERROR (''Asynchronous task failed: '' @ x) \<notin> set (new_events w (shared ?pl))"
    for x
  proof -
    from convert_joined(2) [of env sch path to sf ff w]
    obtain evs where evs: "trace (shared ?pl) = trace w @ evs" "\<forall>e\<in>set evs. \<not> task_failed e"
      by blast
    have "task_failed (Logged ERROR (''Asynchronous task failed: '' @ x))" by simp
    with evs show ?thesis by (auto simp: new_events_app)
  qed
  show "main_result ?pl = fst (exec env ?single w)" if "complete ?pl"
    using that by (rule convert_ends_as_convert_single)
  assume ok: "is_directory env path = Inr True" "to \<noteq> []"
    "ff = [] \<or> \<not> malformed env (''^.*'' @ [backslash] @ ''.('' @ ff @ '')$'')"
  show "fst (exec env ?single w)
          = (case walk_error (recursive_directory_iterator env path) of
               None \<Rightarrow> Normal ()
             | Some msg \<Rightarrow> Raised (Filesystem_error msg))"
    using exec_convert_single_result(1) [OF ok(3,2,1)] .
  fix p
  assume p: "(p, True) \<in> set (entries (recursive_directory_iterator env path))"
    "accepted env (filename p) ff"
  from inevitably_exec [OF inevitably_opened_convert_single [OF ok(3) p(2) ok(2,1) p(1)],
      where w = w and r = "fst (exec env ?single w)" and w' = "snd (exec env ?single w)"]
    thread_free_exec [OF thread_free_convert_single, where env = env and path1 = path
      and to1 = to and sf1 = sf and ff1 = ff and w = w and env1 = env]
  show "Opened_in p \<in> set (new_events w (snd (exec env ?single w)))" by simp
  show "Opened_in p \<in> set (new_events w (shared ?pl))" if "complete ?pl"
    using inevitably_complete [OF inevitably_opened_convert [OF ok(3) p(2) ok(2,1) p(1)] that] .
qed

lemma denied_concurrent_run:
  "run_schedule denied_env [0, 0, 0, 0, 1, 0, 1, 1, 1, 0]
     (start (convert denied_env ''d'' ''latin9'' [] []) ex_world)
   = \<lparr>threads = [Throw (Filesystem_error ''cannot increment recursive directory iterator''),
                 Return ()],
      shared =
        \<lparr>files = files ex_world,
         trace =
           [Logged WARN ''Unknown encoding name encountered: latin9'',
            Logged INFO ''Target Encoding Mapped: latin9'',
            Logged INFO ''Processing directory: d'',
            Opened_in ''d/a.txt'',
            Logged WARN ''Skipping non-regular file: d/sub'',
            Logged ERROR ''ICU conversion failed: U_FILE_ACCESS_ERROR'',
            Logged ERROR
              ''Conversion failed for file: d/a.txt | Error: ICU conversion failed: U_FILE_ACCESS_ERROR'',
            Logged ERROR
              ''Error converting d/a.txt: ICU conversion failed: U_FILE_ACCESS_ERROR'']\<rparr>\<rparr>"
  by (simp add: convert_def task_body_def pool_step_def start_def denied_env_def ex_env_def
      shouldProcessFile_def convertFile_def detectEncoding_def convertEncoding_def ex_world_def
      emit_def mapEncodingName_def alias_table_def unwinding_def Let_def)

theorem file_failures_stay_in_their_job_witness:
  "fst (exec denied_env (convertFile denied_env ''d/a.txt'' ''latin9'' []) ex_world)
     = Raised (Runtime_error ''ICU conversion failed: U_FILE_ACCESS_ERROR'')
   \<and> exec denied_env
       (task_body denied_env \<lparr>t_path = ''d/a.txt'', t_to = ''latin9'', t_filter = []\<rparr>)
       ex_world
     = (Normal (),
        \<lparr>files = files ex_world,
         trace =
           [Opened_in ''d/a.txt'',
            Logged ERROR ''ICU conversion failed: U_FILE_ACCESS_ERROR'',
            Logged ERROR
              ''Conversion failed for file: d/a.txt | Error: ICU conversion failed: U_FILE_ACCESS_ERROR'',
            Logged ERROR
              ''Error converting d/a.txt: ICU conversion failed: U_FILE_ACCESS_ERROR'']\<rparr>)
   \<and> is_directory denied_env ''d'' = Inr True
   \<and> walk_error (recursive_directory_iterator denied_env ''d'')
       = Some ''cannot increment recursive directory iterator''
   \<and> (''d/a.txt'', True) \<in> set (entries (recursive_directory_iterator denied_env ''d''))
   \<and> accepted denied_env (filename ''d/a.txt'') []
   \<and> complete (run_schedule denied_env [0, 0, 0, 0, 1, 0, 1, 1, 1, 0]
                 (start (convert denied_env ''d'' ''latin9'' [] []) ex_world))
   \<and> main_result (run_schedule denied_env [0, 0, 0, 0, 1, 0, 1, 1, 1, 0]
                    (start (convert denied_env ''d'' ''latin9'' [] []) ex_world))
       = Raised (Filesystem_error ''cannot increment recursive directory iterator'')
   \<and> fst (exec denied_env (convert_single denied_env ''d'' ''latin9'' [] []) ex_world)
       = Raised (Filesystem_error ''cannot increment recursive directory iterator'')
   \<and> Opened_in ''d/a.txt''
       \<in> set (new_events ex_world
                (snd (exec denied_env (convert_single denied_env ''d'' ''latin9'' [] [])
                        ex_world)))
   \<and> Opened_in ''d/a.txt''
       \<in> set (new_events ex_world
                (shared (run_schedule denied_env [0, 0, 0, 0, 1, 0, 1, 1, 1, 0]
                           (start (convert denied_env ''d'' ''latin9'' [] []) ex_world))))"
proof -
  let ?pl = "run_schedule denied_env [0, 0, 0, 0, 1, 0, 1, 1, 1, 0]
               (start (convert denied_env ''d'' ''latin9'' [] []) ex_world)"
  have d: "is_directory denied_env ''d'' = Inr True"
    "walk_error (recursive_directory_iterator denied_env ''d'')
       = Some ''cannot increment recursive directory iterator''"
    "(''d/a.txt'', True) \<in> set (entries (recursive_directory_iterator denied_env ''d''))"
    "accepted denied_env (filename ''d/a.txt'') []"
    by (simp_all add: denied_env_def ex_env_def accepted_def)
  have r: "exec denied_env (convertFile denied_env ''d/a.txt'' ''latin9'' []) ex_world
           = (Raised (Runtime_error ''ICU conversion failed: U_FILE_ACCESS_ERROR''),
              \<lparr>files = files ex_world,
               trace =
                 [Opened_in ''d/a.txt'',
                  Logged ERROR ''ICU conversion failed: U_FILE_ACCESS_ERROR'',
                  Logged ERROR
                    ''Conversion failed for file: d/a.txt | Error: ICU conversion failed: U_FILE_ACCESS_ERROR'']\<rparr>)"
    by (simp add: convertFile_def detectEncoding_def convertEncoding_def mapEncodingName_def
        alias_table_def denied_env_def ex_env_def ex_world_def emit_def exec_bind
        exec_try_catch Let_def)
  have c: "complete ?pl" "main_result ?pl \<noteq> Needs_threads"
    unfolding denied_concurrent_run by (simp_all add: complete_def main_result_def)
  from file_failures_stay_in_their_job
         [where env = denied_env and w = ex_world and path = "''d''" and to = "''latin9''"
            and sf = "[]" and ff = "[]" and sch = "[0, 0, 0, 0, 1, 0, 1, 1, 1, 0]"
            and t = "\<lparr>t_path = ''d/a.txt'', t_to = ''latin9'', t_filter = []\<rparr>"
            and e = "Runtime_error ''ICU conversion failed: U_FILE_ACCESS_ERROR''"]
       d r c
  show ?thesis by (auto simp: emit_def)
qed

subsection \<open>Malformed filters\<close>

lemma exec_convert_single_entries_no_regular:
  assumes "\<forall>p. (p, True) \<notin> set (entries es)"
  shows "exec env (convert_single_entries env es m sf ff) w
         = (case walk_error es of
              None \<Rightarrow> Normal ()
            | Some msg \<Rightarrow> Raised (Filesystem_error msg),
            w\<lparr>trace := trace w
                 @ map (\<lambda>(p, regular). Logged WARN (''Skipping non-regular file: '' @ p))
                     (entries es)\<rparr>)"
  using assms
proof (induction es arbitrary: w)
  case End
  show ?case by simp
next
  case (Iterator_error msg)
  show ?case by simp
next
  case (Entry p status es)
  show ?case
  proof (cases status)
    case (Inl msg)
    then show ?thesis by simp
  next
    case (Inr regular)
    with Entry.prems have "\<not> regular" "\<forall>p. (p, True) \<notin> set (entries es)" by auto
    with Entry.IH [of "emit (Logged WARN (''Skipping non-regular file: '' @ p)) w"] Inr
    show ?thesis by (simp add: emit_def)
  qed
qed

lemma exec_convert_single_no_regular:
  assumes "to \<noteq> []" "is_directory env path = Inr True"
    and "\<forall>p. (p, True) \<notin> set (entries (recursive_directory_iterator env path))"
  shows "fst (exec env (convert_single env path to sf ff) w)
         = (case walk_error (recursive_directory_iterator env path) of
              None \<Rightarrow> Normal ()
            | Some msg \<Rightarrow> Raised (Filesystem_error msg))"
    and "Logged ERROR m \<notin> set (new_events w (snd (exec env (convert_single env path to sf ff) w)))"
  using assms(1,2)
  by (auto simp: convert_single_def exec_bind exec_mapEncodingName normalize_spec_empty
      exec_convert_single_entries_no_regular [OF assms(3)] emit_def new_events_def)

lemma exec_convertFile_malformed:
  assumes "sf \<noteq> []" "std_regex env (''^('' @ sf @ '')$'') = Inl msg"
    and "files w (inode_of env p) = Some c" "uchardet env c = Charset (Some name)"
    and "name \<noteq> ''UNKNOWN''"
  shows "exec env (convertFile env p to sf) w
         = (Raised (Runtime_error (''Invalid regex filter: '' @ sf)),
            w\<lparr>trace := trace w
                 @ [Opened_in p,
                    Logged ERROR (''Invalid regex filter: '' @ sf @ '' | Error: '' @ msg)]\<rparr>)"
  using assms by (simp add: convertFile_def detectEncoding_def exec_bind emit_def)

text \<open>
  C4, as amended. The filename filter is compiled for each regular file that the run
  reaches, outside every \<^verbatim>\<open>try\<close> block. When it is malformed no file is opened or written,
  in \<open>convert_single\<close> and under every schedule of \<open>convert\<close>, which starts no task and
  ends as \<open>convert_single\<close> does; the run ends with the invalid-filter error when it
  reaches a regular file, that is, when the walk of the directory hands one out or the
  path is one; and a walk that hands out no regular file never compiles the filter: the
  run logs no error and ends normally, or with the \<^verbatim>\<open>filesystem_error\<close> of the walk.
  The source-encoding filter is compiled inside each file job, after the file has been
  opened and read and its encoding detected. When it is malformed, a job that reads its
  file and whose detector names an encoding logs the invalid-filter error, catches it at
  its boundary and logs \<open>Error converting\<close>; no file is rewritten, in \<open>convert_single\<close>
  and under every schedule of \<open>convert\<close>; and the run is not aborted: with a target encoding and a well-formed filename filter, a run on a
  regular file ends normally, a run on a directory ends normally unless the walk throws,
  and every regular entry that the walk reaches and the filename filter accepts is opened.
\<close>

theorem malformed_filter_rewrites_nothing:
  "(ff \<noteq> [] \<and> malformed env (''^.*'' @ [backslash] @ ''.('' @ ff @ '')$'') \<longrightarrow>
      files (snd (exec env (convert_single env path to sf ff) w)) = files w
    \<and> (\<forall>e\<in>set (new_events w (snd (exec env (convert_single env path to sf ff) w))).
          \<not> file_event e)
    \<and> (to \<noteq> []
        \<and> (if is_directory env path = Inr True
            then \<exists>p. (p, True) \<in> set (entries (recursive_directory_iterator env path))
            else is_directory env path = Inr False \<and> is_regular_file env path = Inr True) \<longrightarrow>
        fst (exec env (convert_single env path to sf ff) w)
          = Raised (Runtime_error (''Invalid regex filter: '' @ ff)))
    \<and> (to \<noteq> [] \<and> is_directory env path = Inr True
        \<and> (\<forall>p. (p, True) \<notin> set (entries (recursive_directory_iterator env path))) \<longrightarrow>
        fst (exec env (convert_single env path to sf ff) w)
          = (case walk_error (recursive_directory_iterator env path) of
               None \<Rightarrow> Normal ()
             | Some msg \<Rightarrow> Raised (Filesystem_error msg))
        \<and> (\<forall>m. Logged ERROR m
                \<notin> set (new_events w (snd (exec env (convert_single env path to sf ff) w)))))
    \<and> files (shared (run_schedule env sch (start (convert env path to sf ff) w))) = files w
    \<and> (\<forall>e\<in>set (new_events w (shared (run_schedule env sch (start (convert env path to sf ff) w)))).
          \<not> file_event e)
    \<and> (complete (run_schedule env sch (start (convert env path to sf ff) w)) \<longrightarrow>
          (main_result (run_schedule env sch (start (convert env path to sf ff) w)),
           shared (run_schedule env sch (start (convert env path to sf ff) w)))
            = exec env (convert_single env path to sf ff) w)
    \<and> (\<exists>sch'. complete (run_schedule env sch' (start (convert env path to sf ff) w))))
   \<and> (sf \<noteq> [] \<and> malformed env (''^('' @ sf @ '')$'') \<longrightarrow>
      files (snd (exec env (convert_single env path to sf ff) w)) = files w
    \<and> (\<forall>e\<in>set (new_events w (snd (exec env (convert_single env path to sf ff) w))).
          \<forall>p d. e \<noteq> Opened_out p \<and> e \<noteq> Wrote p d)
    \<and> files (shared (run_schedule env sch (start (convert env path to sf ff) w))) = files w
    \<and> (\<forall>e\<in>set (new_events w (shared (run_schedule env sch (start (convert env path to sf ff) w)))).
          \<forall>p d. e \<noteq> Opened_out p \<and> e \<noteq> Wrote p d)
    \<and> (\<forall>p c name msg.
          std_regex env (''^('' @ sf @ '')$'') = Inl msg
          \<and> files w (inode_of env p) = Some c \<and> uchardet env c = Charset (Some name)
          \<and> name \<noteq> ''UNKNOWN'' \<longrightarrow>
          exec env (convertFile env p to sf) w
            = (Raised (Runtime_error (''Invalid regex filter: '' @ sf)),
               w\<lparr>trace := trace w
                    @ [Opened_in p,
                       Logged ERROR (''Invalid regex filter: '' @ sf @ '' | Error: '' @ msg)]\<rparr>)
          \<and> exec env (task_body env \<lparr>t_path = p, t_to = to, t_filter = sf\<rparr>) w
            = (Normal (),
               w\<lparr>trace := trace w
                    @ [Opened_in p,
                       Logged ERROR (''Invalid regex filter: '' @ sf @ '' | Error: '' @ msg),
                       Logged ERROR (''Error converting '' @ p @ '': Invalid regex filter: ''
                                     @ sf)]\<rparr>))
    \<and> (complete (run_schedule env sch (start (convert env path to sf ff) w)) \<longrightarrow>
          main_result (run_schedule env sch (start (convert env path to sf ff) w))
            = fst (exec env (convert_single env path to sf ff) w))
    \<and> (to \<noteq> [] \<and> (ff = [] \<or> \<not> malformed env (''^.*'' @ [backslash] @ ''.('' @ ff @ '')$'')) \<longrightarrow>
          (is_directory env path = Inr False \<and> is_regular_file env path = Inr True \<longrightarrow>
             fst (exec env (convert_single env path to sf ff) w) = Normal ())
        \<and> (is_directory env path = Inr True \<longrightarrow>
             fst (exec env (convert_single env path to sf ff) w)
               = (case walk_error (recursive_directory_iterator env path) of
                    None \<Rightarrow> Normal ()
                  | Some msg \<Rightarrow> Raised (Filesystem_error msg))
           \<and> (\<forall>p. (p, True) \<in> set (entries (recursive_directory_iterator env path))
                   \<and> accepted env (filename p) ff \<longrightarrow>
                 Opened_in p
                   \<in> set (new_events w (snd (exec env (convert_single env path to sf ff) w)))
               \<and> (complete (run_schedule env sch (start (convert env path to sf ff) w)) \<longrightarrow>
                    Opened_in p
                      \<in> set (new_events w
                               (shared (run_schedule env sch
                                          (start (convert env path to sf ff) w)))))))))"
proof (intro conjI impI allI; (elim conjE)?)
  let ?single = "convert_single env path to sf ff"
  let ?pl = "run_schedule env sch (start (convert env path to sf ff) w)"
  let ?A = "\<lambda>a. case a of Act e \<Rightarrow> \<not> file_event e | Spawn t \<Rightarrow> False | Raise e \<Rightarrow> True"
  assume ff: "ff \<noteq> []" "malformed env (''^.*'' @ [backslash] @ ''.('' @ ff @ '')$'')"
  note na = not_accepted_malformed [OF ff]
  have al: "always ?A ?single"
    using na by (intro always_convert_single) simp_all
  have eq: "convert env path to sf ff = ?single" by (rule convert_malformed [OF ff])
  have tf: "thread_free (convert env path to sf ff)"
    unfolding eq by (rule thread_free_convert_single)
  have sp: "\<And>t. ?A (Spawn t) \<Longrightarrow> always ?A (task_body env t)" by simp
  have al': "\<forall>P\<in>set (threads (start (convert env path to sf ff) w)). always ?A P"
    using al eq by simp
  show "files (snd (exec env ?single w)) = files w"
    using al by (rule exec_no_write) simp_all
  from always_exec [OF al, of env w "fst (exec env ?single w)" "snd (exec env ?single w)"]
  show "\<forall>e\<in>set (new_events w (snd (exec env ?single w))). \<not> file_event e"
    by (auto simp: new_events_app)
  show "files (shared ?pl) = files w"
    using run_schedule_no_write [of ?A env, OF sp al', of sch] by simp
  from always_run_schedule [of ?A env, OF sp al', of sch]
  show "\<forall>e\<in>set (new_events w (shared ?pl)). \<not> file_event e"
    by (auto simp: new_events_app)
  show "(main_result ?pl, shared ?pl) = exec env ?single w" if "complete ?pl"
    using single_thread_run [OF tf that] eq by simp
  show "\<exists>sch'. complete (run_schedule env sch' (start (convert env path to sf ff) w))"
    using single_thread_completes [OF tf, of env w] by (simp add: start_def)
  show "fst (exec env ?single w) = Raised (Runtime_error (''Invalid regex filter: '' @ ff))"
    if "to \<noteq> []" "if is_directory env path = Inr True
            then \<exists>p. (p, True) \<in> set (entries (recursive_directory_iterator env path))
            else is_directory env path = Inr False \<and> is_regular_file env path = Inr True"
    using exec_convert_single_malformed [OF ff that] .
  assume none: "to \<noteq> []" "is_directory env path = Inr True"
    "\<forall>p. (p, True) \<notin> set (entries (recursive_directory_iterator env path))"
  show "fst (exec env ?single w)
          = (case walk_error (recursive_directory_iterator env path) of
               None \<Rightarrow> Normal ()
             | Some msg \<Rightarrow> Raised (Filesystem_error msg))"
    using exec_convert_single_no_regular(1) [OF none] .
  show "Logged ERROR m \<notin> set (new_events w (snd (exec env ?single w)))" for m
    using exec_convert_single_no_regular(2) [OF none] .
next
  let ?single = "convert_single env path to sf ff"
  let ?pl = "run_schedule env sch (start (convert env path to sf ff) w)"
  let ?A = "\<lambda>a. case a of Act e \<Rightarrow> (\<forall>p d. e \<noteq> Opened_out p \<and> e \<noteq> Wrote p d)
                | Spawn t \<Rightarrow> t_filter t = sf | Raise e \<Rightarrow> True"
  assume sf: "sf \<noteq> []" "malformed env (''^('' @ sf @ '')$'')"
  have sp: "always ?A (task_body env t)" if "?A (Spawn t)" for t
    using that sf by (intro always_task_body) simp_all
  have al: "always ?A ?single"
    using sp by (intro always_convert_single) simp_all
  have "always ?A (convert env path to sf ff)"
    using sp by (intro always_convert) simp_all
  then have al': "\<forall>P\<in>set (threads (start (convert env path to sf ff) w)). always ?A P"
    by simp
  show "files (snd (exec env ?single w)) = files w"
    using al by (rule exec_no_write) simp_all
  from always_exec [OF al, of env w "fst (exec env ?single w)" "snd (exec env ?single w)"]
  show "\<forall>e\<in>set (new_events w (snd (exec env ?single w))). \<forall>p d. e \<noteq> Opened_out p \<and> e \<noteq> Wrote p d"
    by (fastforce simp: new_events_app)
  show "files (shared ?pl) = files w"
    using run_schedule_no_write [of ?A env, OF sp al', of sch] by simp
  from always_run_schedule [of ?A env, OF sp al', of sch]
  show "\<forall>e\<in>set (new_events w (shared ?pl)). \<forall>p d. e \<noteq> Opened_out p \<and> e \<noteq> Wrote p d"
    by (fastforce simp: new_events_app)
  show "main_result ?pl = fst (exec env ?single w)" if "complete ?pl"
    using that by (rule convert_ends_as_convert_single)
  {
    fix p c name msg
    assume job: "std_regex env (''^('' @ sf @ '')$'') = Inl msg"
      "files w (inode_of env p) = Some c" "uchardet env c = Charset (Some name)"
      "name \<noteq> ''UNKNOWN''"
    note e = exec_convertFile_malformed [OF sf(1) job, of to]
    show "exec env (convertFile env p to sf) w
            = (Raised (Runtime_error (''Invalid regex filter: '' @ sf)),
               w\<lparr>trace := trace w
                    @ [Opened_in p,
                       Logged ERROR (''Invalid regex filter: '' @ sf @ '' | Error: '' @ msg)]\<rparr>)"
      by (rule e)
    show "exec env (task_body env \<lparr>t_path = p, t_to = to, t_filter = sf\<rparr>) w
            = (Normal (),
               w\<lparr>trace := trace w
                    @ [Opened_in p,
                       Logged ERROR (''Invalid regex filter: '' @ sf @ '' | Error: '' @ msg),
                       Logged ERROR (''Error converting '' @ p @ '': Invalid regex filter: ''
                                     @ sf)]\<rparr>)"
      by (simp add: task_body_def exec_try_catch e emit_def)
  }
  assume ok: "to \<noteq> []"
    "ff = [] \<or> \<not> malformed env (''^.*'' @ [backslash] @ ''.('' @ ff @ '')$'')"
  show "fst (exec env ?single w) = Normal ()"
    if "is_directory env path = Inr False" "is_regular_file env path = Inr True"
    using exec_convert_single_result(2) [OF ok(2,1) that] .
  assume dir: "is_directory env path = Inr True"
  show "fst (exec env ?single w)
          = (case walk_error (recursive_directory_iterator env path) of
               None \<Rightarrow> Normal ()
             | Some msg \<Rightarrow> Raised (Filesystem_error msg))"
    using exec_convert_single_result(1) [OF ok(2,1) dir] .
  fix p
  assume p: "(p, True) \<in> set (entries (recursive_directory_iterator env path))"
    "accepted env (filename p) ff"
  from inevitably_exec [OF inevitably_opened_convert_single [OF ok(2) p(2) ok(1) dir p(1)],
      where w = w and r = "fst (exec env ?single w)" and w' = "snd (exec env ?single w)"]
    thread_free_exec [OF thread_free_convert_single, where env = env and path1 = path
      and to1 = to and sf1 = sf and ff1 = ff and w = w and env1 = env]
  show "Opened_in p \<in> set (new_events w (snd (exec env ?single w)))" by simp
  show "Opened_in p \<in> set (new_events w (shared ?pl))" if "complete ?pl"
    using inevitably_complete [OF inevitably_opened_convert [OF ok(2) p(2) ok(1) dir p(1)] that] .
qed

lemma malformed_concurrent_run:
  "run_schedule ex_env [0, 0, 0, 0, 0, 2, 1, 2, 1, 1, 2, 0, 0]
     (start (convert ex_env ''d'' ''UTF-8'' ''('' []) ex_world)
   = \<lparr>threads = [Return (), Return (), Return ()],
      shared =
        \<lparr>files = files ex_world,
         trace =
           [Logged INFO ''Target Encoding Mapped: UTF-8'',
            Logged INFO ''Processing directory: d'',
            Logged WARN ''Skipping non-regular file: d/sub'',
            Opened_in ''d/b.md'', Opened_in ''d/a.txt'',
            Logged ERROR ''Invalid regex filter: ( | Error: regex_error'',
            Logged ERROR ''Invalid regex filter: ( | Error: regex_error'',
            Logged ERROR ''Error converting d/a.txt: Invalid regex filter: ('',
            Logged ERROR ''Error converting d/b.md: Invalid regex filter: ('']\<rparr>\<rparr>"
  by (simp add: convert_def task_body_def pool_step_def start_def ex_env_def
      shouldProcessFile_def convertFile_def detectEncoding_def ex_world_def
      emit_def mapEncodingName_def alias_table_def Let_def std_regex_def rx_parse_def
      backslash_def syntax_char_def)

theorem malformed_filter_rewrites_nothing_witness:
  "malformed ex_env (''^.*'' @ [backslash] @ ''.('' @ ''('' @ '')$'')
   \<and> is_directory ex_env ''d'' = Inr True
   \<and> (''d/a.txt'', True) \<in> set (entries (recursive_directory_iterator ex_env ''d''))
   \<and> fst (exec ex_env (convert_single ex_env ''d'' ''UTF-8'' [] ''('') ex_world)
       = Raised (Runtime_error ''Invalid regex filter: ('')
   \<and> files (snd (exec ex_env (convert_single ex_env ''d'' ''UTF-8'' [] ''('') ex_world))
       = files ex_world
   \<and> entries (recursive_directory_iterator
                (ex_env\<lparr>recursive_directory_iterator :=
                          (\<lambda>p. Entry ''d/sub'' (Inr False) End)\<rparr>) ''d'')
       = [(''d/sub'', False)]
   \<and> fst (exec (ex_env\<lparr>recursive_directory_iterator :=
                           (\<lambda>p. Entry ''d/sub'' (Inr False) End)\<rparr>)
             (convert_single (ex_env\<lparr>recursive_directory_iterator :=
                                       (\<lambda>p. Entry ''d/sub'' (Inr False) End)\<rparr>)
                ''d'' ''UTF-8'' [] ''('')
             ex_world)
       = Normal ()
   \<and> malformed ex_env (''^('' @ ''('' @ '')$'')
   \<and> std_regex ex_env (''^('' @ ''('' @ '')$'') = Inl ''regex_error''
   \<and> files ex_world (inode_of ex_env ''d/a.txt'') = Some ''hello''
   \<and> uchardet ex_env ''hello'' = Charset (Some ''ASCII'')
   \<and> exec ex_env
       (task_body ex_env \<lparr>t_path = ''d/a.txt'', t_to = ''UTF-8'', t_filter = ''(''\<rparr>) ex_world
       = (Normal (),
          \<lparr>files = files ex_world,
           trace =
             [Opened_in ''d/a.txt'',
              Logged ERROR ''Invalid regex filter: ( | Error: regex_error'',
              Logged ERROR ''Error converting d/a.txt: Invalid regex filter: ('']\<rparr>)
   \<and> files (snd (exec ex_env (convert_single ex_env ''d'' ''UTF-8'' ''('' []) ex_world))
       = files ex_world
   \<and> accepted ex_env (filename ''d/a.txt'') []
   \<and> complete (run_schedule ex_env [0, 0, 0, 0, 0, 2, 1, 2, 1, 1, 2, 0, 0]
                 (start (convert ex_env ''d'' ''UTF-8'' ''('' []) ex_world))
   \<and> main_result (run_schedule ex_env [0, 0, 0, 0, 0, 2, 1, 2, 1, 1, 2, 0, 0]
                    (start (convert ex_env ''d'' ''UTF-8'' ''('' []) ex_world))
       = Normal ()
   \<and> fst (exec ex_env (convert_single ex_env ''d'' ''UTF-8'' ''('' []) ex_world) = Normal ()
   \<and> Opened_in ''d/a.txt''
       \<in> set (new_events ex_world
                (snd (exec ex_env (convert_single ex_env ''d'' ''UTF-8'' ''('' []) ex_world)))"
proof -
  let ?none = "ex_env\<lparr>recursive_directory_iterator := (\<lambda>p. Entry ''d/sub'' (Inr False) End)\<rparr>"
  let ?pl = "run_schedule ex_env [0, 0, 0, 0, 0, 2, 1, 2, 1, 1, 2, 0, 0]
               (start (convert ex_env ''d'' ''UTF-8'' ''('' []) ex_world)"
  have d: "is_directory ex_env ''d'' = Inr True"
    "(''d/a.txt'', True) \<in> set (entries (recursive_directory_iterator ex_env ''d''))"
    "walk_error (recursive_directory_iterator ex_env ''d'') = None"
    "accepted ex_env (filename ''d/a.txt'') []"
    by (simp_all add: ex_env_def accepted_def)
  have n: "is_directory ?none ''d'' = Inr True"
    "entries (recursive_directory_iterator ?none ''d'') = [(''d/sub'', False)]"
    "walk_error (recursive_directory_iterator ?none ''d'') = None"
    "malformed ?none (''^.*'' @ [backslash] @ ''.('' @ ''('' @ '')$'')"
    by (simp_all add: ex_env_def malformed_def std_regex_def rx_parse_def backslash_def
        syntax_char_def)
  have j: "std_regex ex_env (''^('' @ ''('' @ '')$'') = Inl ''regex_error''"
    "files ex_world (inode_of ex_env ''d/a.txt'') = Some ''hello''"
    "uchardet ex_env ''hello'' = Charset (Some ''ASCII'')"
    by (simp_all add: ex_env_def ex_world_def std_regex_def rx_parse_def backslash_def
        syntax_char_def)
  have c: "complete ?pl" "main_result ?pl = Normal ()"
    unfolding malformed_concurrent_run by (simp_all add: complete_def main_result_def)
  from malformed_filter_rewrites_nothing
          [where env = ex_env and path = "''d''" and to = "''UTF-8''" and sf = "[]"
             and ff = "''(''" and w = ex_world and sch = "[]"] ex_malformed(1) d
  have 1: "fst (exec ex_env (convert_single ex_env ''d'' ''UTF-8'' [] ''('') ex_world)
             = Raised (Runtime_error ''Invalid regex filter: ('')"
    "files (snd (exec ex_env (convert_single ex_env ''d'' ''UTF-8'' [] ''('') ex_world))
       = files ex_world"
    by auto
  from malformed_filter_rewrites_nothing
          [where env = ?none and path = "''d''" and to = "''UTF-8''" and sf = "[]"
             and ff = "''(''" and w = ex_world and sch = "[]"] n
  have 2: "fst (exec ?none (convert_single ?none ''d'' ''UTF-8'' [] ''('') ex_world) = Normal ()"
    by simp
  from malformed_filter_rewrites_nothing
          [where env = ex_env and path = "''d''" and to = "''UTF-8''" and sf = "''(''"
             and ff = "[]" and w = ex_world
             and sch = "[0, 0, 0, 0, 0, 2, 1, 2, 1, 1, 2, 0, 0]"] ex_malformed(2) d j c
  have 3: "exec ex_env
       (task_body ex_env \<lparr>t_path = ''d/a.txt'', t_to = ''UTF-8'', t_filter = ''(''\<rparr>) ex_world
       = (Normal (),
          ex_world\<lparr>trace := trace ex_world @
             [Opened_in ''d/a.txt'',
              Logged ERROR (''Invalid regex filter: '' @ ''('' @ '' | Error: '' @ ''regex_error''),
              Logged ERROR (''Error converting '' @ ''d/a.txt'' @ '': Invalid regex filter: ''
                            @ ''('')]\<rparr>)"
    "files (snd (exec ex_env (convert_single ex_env ''d'' ''UTF-8'' ''('' []) ex_world))
       = files ex_world"
    "fst (exec ex_env (convert_single ex_env ''d'' ''UTF-8'' ''('' []) ex_world) = Normal ()"
    "Opened_in ''d/a.txt''
       \<in> set (new_events ex_world
                (snd (exec ex_env (convert_single ex_env ''d'' ''UTF-8'' ''('' []) ex_world)))"
    by auto
  from 1 2 3 d n j c ex_malformed show ?thesis by (simp add: ex_world_def)
qed

text \<open>
  The claim C4 as stated fails for the source-encoding filter: it is compiled inside each
  file job, after the file has been read, and the error is caught at the job boundary.
  With the malformed filter \<open>(\<close> the run over the directory \<open>d\<close> is not aborted, and
  its files are opened.
\<close>

theorem malformed_source_filter_counterexample:
  "malformed ex_env (''^('' @ ''('' @ '')$'')
   \<and> fst (exec ex_env (convert_single ex_env ''d'' ''UTF-8'' ''('' []) ex_world) = Normal ()
   \<and> Opened_in ''d/a.txt''
       \<in> set (trace (snd (exec ex_env (convert_single ex_env ''d'' ''UTF-8'' ''('' []) ex_world)))"
  by (simp add: ex_run_simps malformed_def std_regex_def rx_parse_def backslash_def
      syntax_char_def)

end
